theory Spec2Isabelle
  imports Complex_Main "HOL-Library.Multiset"
begin

section \<open>The Sudoku engine of logic.js\<close>

text \<open>
  A board is a JavaScript array of nine arrays of nine numbers; \<open>0\<close> is an empty cell.
  \<open>board[r][c]\<close> is \<open>board ! r ! c\<close>. The functions below are the ones of the enhanced
  logic module (validation with range check, solver with statistics, generator).
  All loops of the source run over the indices \<open>0..8\<close>, so on a board of nine rows of
  nine cells every read and write is in range; the theorems assume that shape
  (\<open>is9x9\<close>).
\<close>

type_synonym board = "int list list"

type_synonym cube = "int list list list"

definition is9x9 :: "board \<Rightarrow> bool" where
  "is9x9 board = (length board = 9 \<and> list_all (\<lambda>row. length row = 9) board)"

definition wf_board :: "board \<Rightarrow> bool" where
  "wf_board board =
     (is9x9 board \<and> list_all (\<lambda>row. list_all (\<lambda>v. 0 \<le> v \<and> v \<le> 9) row) board)"

text \<open>\<open>board[r][c] = v\<close>, as a new board.\<close>

definition setCell :: "board \<Rightarrow> nat \<Rightarrow> nat \<Rightarrow> int \<Rightarrow> board" where
  "setCell board r c v = board[r := (board ! r)[c := v]]"

text \<open>The 81 positions in the order of the nested loops \<open>for r ... for c ...\<close>.\<close>

definition cells :: "(nat \<times> nat) list" where
  "cells = List.product [0..<9] [0..<9]"

subsection \<open>Constraint checker\<close>

text \<open>
  \<open>isValidPlacement\<close>: three loops, each returning \<open>false\<close> at the first other
  cell of the row, the column or the 3x3 box that holds \<open>num\<close>.
\<close>

definition isValidPlacement :: "board \<Rightarrow> nat \<Rightarrow> nat \<Rightarrow> int \<Rightarrow> bool" where
  "isValidPlacement board row col num =
     (if list_ex (\<lambda>c. c \<noteq> col \<and> board ! row ! c = num) [0..<9] then False
      else if list_ex (\<lambda>r. r \<noteq> row \<and> board ! r ! col = num) [0..<9] then False
      else
        let boxR = (row div 3) * 3;
            boxC = (col div 3) * 3
        in if list_ex (\<lambda>r. list_ex (\<lambda>c. (r \<noteq> row \<or> c \<noteq> col) \<and> board ! r ! c = num)
                               [boxC..<boxC + 3])
                      [boxR..<boxR + 3]
           then False else True)"

text \<open>The body of the inner loop of \<open>validateBoard\<close>, on the list of conflicts so far.\<close>

definition validateCell :: "board \<Rightarrow> nat \<Rightarrow> nat \<Rightarrow> (nat \<times> nat) list \<Rightarrow> (nat \<times> nat) list" where
  "validateCell board r c conflicts =
     (let val = board ! r ! c
      in if val = 0 then conflicts
         else if val < 1 \<or> val > 9 then conflicts @ [(r, c)]
         else if \<not> isValidPlacement board r c val then conflicts @ [(r, c)]
         else conflicts)"

definition validateBoard :: "board \<Rightarrow> (nat \<times> nat) list" where
  "validateBoard board =
     fold (\<lambda>r. fold (\<lambda>c. validateCell board r c) [0..<9]) [0..<9] []"

definition isBoardComplete :: "board \<Rightarrow> bool" where
  "isBoardComplete board =
     (\<not> list_ex (\<lambda>r. list_ex (\<lambda>c. board ! r ! c = 0) [0..<9]) [0..<9])"

definition isBoardSolved :: "board \<Rightarrow> bool" where
  "isBoardSolved board = (isBoardComplete board \<and> length (validateBoard board) = 0)"

subsection \<open>Randomness\<close>

text \<open>
  \<open>Math.random()\<close> is read from a stream: \<open>rng 0\<close> is the next result and the rest
  of the stream is \<open>\<lambda>n. rng (Suc n)\<close>. The language guarantees a result in \<open>[0, 1)\<close>.
\<close>

type_synonym rng = "nat \<Rightarrow> real"

definition rng_ok :: "rng \<Rightarrow> bool" where
  "rng_ok rng = (\<forall>n. 0 \<le> rng n \<and> rng n < 1)"

definition rng_zero :: rng where
  "rng_zero = (\<lambda>n. 0)"

text \<open>
  \<open>shuffleArray\<close> (Fisher-Yates): the loop \<open>for (i = arr.length - 1; i > 0; i--)\<close>
  with \<open>j = Math.floor(Math.random() * (i + 1))\<close> and the swap of \<open>arr[i]\<close>, \<open>arr[j]\<close>.
\<close>

fun shuffleLoop :: "nat \<Rightarrow> 'a list \<Rightarrow> rng \<Rightarrow> 'a list \<times> rng" where
  "shuffleLoop 0 arr rng = (arr, rng)"
| "shuffleLoop (Suc i') arr rng =
     (let i = Suc i';
          j = nat \<lfloor>rng 0 * real (i + 1)\<rfloor>
      in shuffleLoop i' (arr[i := arr ! j, j := arr ! i]) (\<lambda>n. rng (Suc n)))"

definition shuffleArray :: "'a list \<Rightarrow> rng \<Rightarrow> 'a list \<times> rng" where
  "shuffleArray arr rng = shuffleLoop (length arr - 1) arr rng"

text \<open>\<open>buildCandidateCube\<close>: \<open>cube[r][c] = shuffleArray([1, ..., 9])\<close> for every cell.\<close>

definition buildCandidateRow :: "rng \<Rightarrow> int list list \<times> rng" where
  "buildCandidateRow rng =
     fold (\<lambda>c (row, g). let (p, g') = shuffleArray [1, 2, 3, 4, 5, 6, 7, 8, 9] g
                         in (row @ [p], g'))
          [0..<9] ([], rng)"

definition buildCandidateCube :: "rng \<Rightarrow> cube \<times> rng" where
  "buildCandidateCube rng =
     fold (\<lambda>r (cube, g). let (row, g') = buildCandidateRow g in (cube @ [row], g'))
          [0..<9] ([], rng)"

subsection \<open>Backtracking solver\<close>

record stats =
  solved :: bool
  backtracks :: int
  elapsedMs :: real

text \<open>
  The search state is the board and the counter \<open>stats.backtracks\<close>. The loop over
  \<open>k\<close> of \<open>backtrack\<close>: \<open>rec\<close> is the recursive call; the result is the value
  returned, with the state left behind. \<open>None\<close> is a call that does not return.
\<close>

fun tryCandidates ::
  "(board \<times> int \<Rightarrow> (bool \<times> board \<times> int) option) \<Rightarrow> nat \<Rightarrow> nat \<Rightarrow> int list \<Rightarrow> nat list
     \<Rightarrow> board \<times> int \<Rightarrow> (bool \<times> board \<times> int) option" where
  "tryCandidates rec r c candidates [] (board, bt) = Some (False, board, bt)"
| "tryCandidates rec r c candidates (k # ks) (board, bt) =
     (let num = candidates ! k
      in if isValidPlacement board r c num then
           (case rec (setCell board r c num, bt) of
              None \<Rightarrow> None
            | Some (ok, board', bt') \<Rightarrow>
                if ok then Some (True, board', bt')
                else tryCandidates rec r c candidates ks (setCell board' r c 0, bt' + 1))
         else tryCandidates rec r c candidates ks (board, bt))"

text \<open>
  \<open>backtrack\<close>. The source recurses without a bound; \<open>fuel\<close> bounds the depth of the
  recursion (the height of the call stack), and \<open>None\<close> is returned when it is used up.
  The two outer loops stop in the first cell of the row-major scan that holds \<open>0\<close>.
\<close>

primrec backtrack :: "nat \<Rightarrow> cube \<Rightarrow> board \<times> int \<Rightarrow> (bool \<times> board \<times> int) option" where
  "backtrack 0 cube s = None"
| "backtrack (Suc fuel) cube s =
     (case find (\<lambda>(r, c). fst s ! r ! c = 0) cells of
        None \<Rightarrow> Some (True, s)
      | Some (r, c) \<Rightarrow> tryCandidates (backtrack fuel cube) r c (cube ! r ! c) [0..<9] s)"

text \<open>
  \<open>solveBoardWithStats(board, cube)\<close>: \<open>cube\<close> is \<open>None\<close> when the argument is omitted.
  \<open>t0\<close> and \<open>t1\<close> are the two readings of \<open>performance.now()\<close>. The result is the
  statistics, the board as the call leaves it, and the rest of the random stream.
\<close>

definition solveBoardWithStats ::
  "nat \<Rightarrow> rng \<Rightarrow> real \<Rightarrow> real \<Rightarrow> board \<Rightarrow> cube option \<Rightarrow> (stats \<times> board \<times> rng) option" where
  "solveBoardWithStats fuel rng t0 t1 board cube =
     (let (cube', rng') = (case cube of None \<Rightarrow> buildCandidateCube rng | Some cu \<Rightarrow> (cu, rng))
      in case backtrack fuel cube' (board, 0) of
           None \<Rightarrow> None
         | Some (ok, board', bt) \<Rightarrow>
             Some (\<lparr>solved = ok, backtracks = bt, elapsedMs = t1 - t0\<rparr>, board', rng'))"

definition solveBoard :: "nat \<Rightarrow> rng \<Rightarrow> real \<Rightarrow> real \<Rightarrow> board \<Rightarrow> (bool \<times> board \<times> rng) option" where
  "solveBoard fuel rng t0 t1 board =
     (case solveBoardWithStats fuel rng t0 t1 board None of
        None \<Rightarrow> None
      | Some (result, board', rng') \<Rightarrow> Some (solved result, board', rng'))"

subsection \<open>Puzzle generator\<close>

definition cloneBoard :: "board \<Rightarrow> board" where
  "cloneBoard board = map (\<lambda>row. row) board"

definition generateFullSolution ::
  "nat \<Rightarrow> rng \<Rightarrow> real \<Rightarrow> real \<Rightarrow> (board \<times> stats \<times> rng) option" where
  "generateFullSolution fuel rng t0 t1 =
     (let board = replicate 9 (replicate 9 0);
          (cube, rng') = buildCandidateCube rng
      in case solveBoardWithStats fuel rng' t0 t1 board (Some cube) of
           None \<Rightarrow> None
         | Some (st, board', rng'') \<Rightarrow> Some (board', st, rng''))"

text \<open>The removal loop \<open>for (i = 0; i < toRemove && i < positions.length; i++)\<close>.\<close>

function removeLoop :: "nat \<Rightarrow> int \<Rightarrow> (nat \<times> nat) list \<Rightarrow> board \<Rightarrow> board" where
  "removeLoop i toRemove positions puzzle =
     (if int i < toRemove \<and> i < length positions
      then (case positions ! i of (r, c) \<Rightarrow> removeLoop (i + 1) toRemove positions (setCell puzzle r c 0))
      else puzzle)"
  by pat_completeness auto
termination
  by (relation "measure (\<lambda>(i, toRemove, positions, puzzle). length positions - i)") auto

text \<open>
  \<open>generatePuzzle(clues)\<close>; a call without argument is the call with \<open>clues = 32\<close>.
  \<open>positions\<close> is the list of the 81 cells, shuffled.
\<close>

definition generatePuzzle ::
  "nat \<Rightarrow> rng \<Rightarrow> real \<Rightarrow> real \<Rightarrow> int \<Rightarrow> (board \<times> board \<times> stats \<times> rng) option" where
  "generatePuzzle fuel rng t0 t1 clues =
     (case generateFullSolution fuel rng t0 t1 of
        None \<Rightarrow> None
      | Some (solution, st, rng1) \<Rightarrow>
          let puzzle = cloneBoard solution;
              (positions, rng2) = shuffleArray cells rng1;
              toRemove = 81 - clues
          in Some (removeLoop 0 toRemove positions puzzle, solution, st, rng2))"

subsection \<open>Specification vocabulary and example boards\<close>

text \<open>Two cells are peers when they share a row, a column or a 3x3 box.\<close>

definition peer :: "nat \<Rightarrow> nat \<Rightarrow> nat \<Rightarrow> nat \<Rightarrow> bool" where
  "peer r c r' c' = (r' = r \<or> c' = c \<or> (r' div 3 = r div 3 \<and> c' div 3 = c div 3))"

text \<open>
  What \<open>validateBoard\<close> flags: a non-zero cell whose value is outside \<open>[1, 9]\<close> or for
  which \<open>isValidPlacement\<close> is false; and the order of the row-major scan.
\<close>

definition conflictAt :: "board \<Rightarrow> nat \<times> nat \<Rightarrow> bool" where
  "conflictAt board = (\<lambda>(r, c).
     board ! r ! c \<noteq> 0 \<and>
     (board ! r ! c < 1 \<or> board ! r ! c > 9 \<or> \<not> isValidPlacement board r c (board ! r ! c)))"

definition rowMajor :: "nat \<times> nat \<Rightarrow> nat \<times> nat \<Rightarrow> bool" where
  "rowMajor p q = (fst p < fst q \<or> (fst p = fst q \<and> snd p < snd q))"

text \<open>
  A valid completed Sudoku: each digit 1..9 occurs exactly once in the nine cells of every
  row, of every column and of every 3x3 box.
\<close>

definition occursOnce :: "int list \<Rightarrow> bool" where
  "occursOnce vals = list_all (\<lambda>d. count_list vals d = 1) [1, 2, 3, 4, 5, 6, 7, 8, 9]"

definition rowOf :: "board \<Rightarrow> nat \<Rightarrow> int list" where
  "rowOf board r = map (\<lambda>c. board ! r ! c) [0..<9]"

definition colOf :: "board \<Rightarrow> nat \<Rightarrow> int list" where
  "colOf board c = map (\<lambda>r. board ! r ! c) [0..<9]"

definition boxOf :: "board \<Rightarrow> nat \<Rightarrow> nat \<Rightarrow> int list" where
  "boxOf board br bc =
     map (\<lambda>(r, c). board ! r ! c) (List.product [3 * br..<3 * br + 3] [3 * bc..<3 * bc + 3])"

definition validSolution :: "board \<Rightarrow> bool" where
  "validSolution board =
     (list_all (\<lambda>i. occursOnce (rowOf board i)) [0..<9] \<and>
      list_all (\<lambda>i. occursOnce (colOf board i)) [0..<9] \<and>
      list_all (\<lambda>(br, bc). occursOnce (boxOf board br bc)) (List.product [0..<3] [0..<3]))"

text \<open>
  The candidate cube of the data model: nine rows of nine cells, each cell a permutation
  of 1..9. The cube argument of a call is either omitted (then \<open>Math.random()\<close> is read,
  within its range) or such a cube.
\<close>

definition wf_cube :: "cube \<Rightarrow> bool" where
  "wf_cube cube =
     (length cube = 9 \<and>
      list_all (\<lambda>row. length row = 9 \<and>
                  list_all (\<lambda>p. sort p = [1, 2, 3, 4, 5, 6, 7, 8, 9]) row) cube)"

definition cubeArgOk :: "rng \<Rightarrow> cube option \<Rightarrow> bool" where
  "cubeArgOk rng cube = (case cube of None \<Rightarrow> rng_ok rng | Some cu \<Rightarrow> wf_cube cu)"

text \<open>
  The number of empty cells and of clues of a board, and a solved grid \<open>g\<close> that agrees
  with a board on the cells the board has filled.
\<close>

definition emptyCount :: "board \<Rightarrow> nat" where
  "emptyCount board = length (filter (\<lambda>(r, c). board ! r ! c = 0) cells)"

definition countNonZero :: "board \<Rightarrow> nat" where
  "countNonZero board = length (filter (\<lambda>(r, c). board ! r ! c \<noteq> 0) cells)"

definition completes :: "board \<Rightarrow> board \<Rightarrow> bool" where
  "completes g board =
     (isBoardSolved g \<and>
      list_all (\<lambda>(r, c). board ! r ! c \<noteq> 0 \<longrightarrow> board ! r ! c = g ! r ! c) cells)"

text \<open>
  What became of a candidate value \<open>v\<close> at an empty cell: it failed when it was not a
  valid placement, or when the search from the board with \<open>v\<close> placed returned without
  success and left that board; its cost is the backtracks of that search and one more for
  taking \<open>v\<close> back.
\<close>

definition candidateFails ::
  "nat \<Rightarrow> rng \<Rightarrow> real \<Rightarrow> real \<Rightarrow> cube \<Rightarrow> board \<Rightarrow> nat \<Rightarrow> nat \<Rightarrow> int \<Rightarrow> bool" where
  "candidateFails fuel rng t0 t1 cube board r c v =
     (\<not> isValidPlacement board r c v \<or>
      (case solveBoardWithStats fuel rng t0 t1 (setCell board r c v) (Some cube) of
         None \<Rightarrow> False
       | Some (st, board', g) \<Rightarrow> \<not> solved st \<and> board' = setCell board r c v))"

definition candidateCost ::
  "nat \<Rightarrow> rng \<Rightarrow> real \<Rightarrow> real \<Rightarrow> cube \<Rightarrow> board \<Rightarrow> nat \<Rightarrow> nat \<Rightarrow> int \<Rightarrow> int" where
  "candidateCost fuel rng t0 t1 cube board r c v =
     (if isValidPlacement board r c v then
        (case solveBoardWithStats fuel rng t0 t1 (setCell board r c v) (Some cube) of
           None \<Rightarrow> 0
         | Some (st, board', g) \<Rightarrow> backtracks st + 1)
      else 0)"

text \<open>
  Examples: the cube with every cell in ascending order; the cube that
  \<open>buildCandidateCube\<close> builds when \<open>Math.random()\<close> always returns \<open>0\<close>; a solved
  grid; that grid with three cells emptied; a board without conflicts that has no
  completion (the search places a 9 in its first empty cell and takes it back); the grid
  with a digit repeated in its first row; the full board of ones.
\<close>

definition ascendingCube :: cube where
  "ascendingCube = replicate 9 (replicate 9 [1, 2, 3, 4, 5, 6, 7, 8, 9])"

definition rotatedCube :: cube where
  "rotatedCube = replicate 9 (replicate 9 [2, 3, 4, 5, 6, 7, 8, 9, 1])"

definition solvedGrid :: board where
  "solvedGrid =
     [[5, 3, 4, 6, 7, 8, 9, 1, 2], [6, 7, 2, 1, 9, 5, 3, 4, 8], [1, 9, 8, 3, 4, 2, 5, 6, 7],
      [8, 5, 9, 7, 6, 1, 4, 2, 3], [4, 2, 6, 8, 5, 3, 7, 9, 1], [7, 1, 3, 9, 2, 4, 8, 5, 6],
      [9, 6, 1, 5, 3, 7, 2, 8, 4], [2, 8, 7, 4, 1, 9, 6, 3, 5], [3, 4, 5, 2, 8, 6, 1, 7, 9]]"

definition threeBlanks :: board where
  "threeBlanks = setCell (setCell (setCell solvedGrid 0 6 0) 0 7 0) 8 6 0"

definition deadEnd :: board where
  "deadEnd = setCell (setCell (setCell (setCell solvedGrid 0 6 0) 0 7 0) 4 7 1) 4 8 0"

definition rowClash :: board where
  "rowClash = setCell solvedGrid 0 1 5"

definition allOnes :: board where
  "allOnes = replicate 9 (replicate 9 1)"

declare removeLoop.simps [simp del]

section \<open>Properties of the model\<close>

subsection \<open>Lists, cells and the placement test\<close>

lemma set_cells: "set cells = {(r, c). r < 9 \<and> c < 9}"
  by (auto simp: cells_def)

lemma distinct_cells: "distinct cells"
  by (simp add: cells_def distinct_product)

lemma length_cells: "length cells = 81"
  by (simp add: cells_def)

lemma is9x9_setCell: "is9x9 b \<Longrightarrow> is9x9 (setCell b r c v)"
proof -
  assume b: "is9x9 b"
  have "length ((setCell b r c v) ! n) = 9" if "n < 9" for n
  proof (cases "n = r")
    case True
    then show ?thesis using b that by (simp add: setCell_def is9x9_def list_all_length)
  next
    case False
    then show ?thesis using b that by (simp add: setCell_def is9x9_def list_all_length)
  qed
  then show ?thesis using b by (simp add: is9x9_def list_all_length setCell_def)
qed

lemma setCell_other:
  "\<not> (r' = r \<and> c' = c) \<Longrightarrow> setCell b r c v ! r' ! c' = b ! r' ! c'"
proof (cases "r' = r")
  case False
  then show ?thesis by (simp add: setCell_def)
next
  case True
  assume "\<not> (r' = r \<and> c' = c)"
  with True have "c' \<noteq> c" by simp
  then show ?thesis using True
    by (cases "r < length b") (simp_all add: setCell_def list_update_beyond)
qed

lemma setCell_same:
  "is9x9 b \<Longrightarrow> r < 9 \<Longrightarrow> c < 9 \<Longrightarrow> setCell b r c v ! r ! c = v"
  by (simp add: setCell_def is9x9_def list_all_length)

lemma setCell_undo:
  assumes "is9x9 b" "r < 9" "b ! r ! c = 0"
  shows "setCell (setCell b r c v) r c 0 = b"
proof -
  have "(b ! r)[c := 0] = b ! r"
    using assms(3) list_update_id [of "b ! r" c] by simp
  then show ?thesis
    using assms(1,2) by (simp add: setCell_def is9x9_def)
qed

lemma box_range: "(x::nat) \<in> set [(r div 3) * 3..<(r div 3) * 3 + 3] \<longleftrightarrow> x div 3 = r div 3"
  by auto

lemma row_scan:
  "list_ex (\<lambda>c'. c' \<noteq> c \<and> b ! r ! c' = v) [0..<9] \<longleftrightarrow> (\<exists>c' < 9. c' \<noteq> c \<and> b ! r ! c' = v)"
  unfolding list_ex_iff by (simp add: Bex_def)

lemma col_scan:
  "list_ex (\<lambda>r'. r' \<noteq> r \<and> b ! r' ! c = v) [0..<9] \<longleftrightarrow> (\<exists>r' < 9. r' \<noteq> r \<and> b ! r' ! c = v)"
  unfolding list_ex_iff by (simp add: Bex_def)

lemma box_scan:
  "list_ex (\<lambda>r'. list_ex (\<lambda>c'. (r' \<noteq> r \<or> c' \<noteq> c) \<and> b ! r' ! c' = v)
                         [(c div 3) * 3..<(c div 3) * 3 + 3])
           [(r div 3) * 3..<(r div 3) * 3 + 3] \<longleftrightarrow>
   (\<exists>r' c'. r' div 3 = r div 3 \<and> c' div 3 = c div 3 \<and> (r' \<noteq> r \<or> c' \<noteq> c) \<and> b ! r' ! c' = v)"
  unfolding list_ex_iff Bex_def box_range by blast

lemma div3_lt9: "(x::nat) div 3 = y div 3 \<Longrightarrow> y < 9 \<Longrightarrow> x < 9"
  by arith

lemma isValidPlacement_iff:
  assumes "r < 9" "c < 9"
  shows "isValidPlacement b r c v \<longleftrightarrow>
         (\<forall>r' < 9. \<forall>c' < 9. peer r c r' c' \<and> (r', c') \<noteq> (r, c) \<longrightarrow> b ! r' ! c' \<noteq> v)"
    (is "?L \<longleftrightarrow> ?R")
proof
  assume L: ?L
  have row: "\<not> (\<exists>c' < 9. c' \<noteq> c \<and> b ! r ! c' = v)"
    using L unfolding isValidPlacement_def row_scan by (auto split: if_splits)
  have col: "\<not> (\<exists>r' < 9. r' \<noteq> r \<and> b ! r' ! c = v)"
    using L unfolding isValidPlacement_def row_scan col_scan by (auto split: if_splits)
  have box: "\<not> (\<exists>r' c'. r' div 3 = r div 3 \<and> c' div 3 = c div 3 \<and> (r' \<noteq> r \<or> c' \<noteq> c) \<and> b ! r' ! c' = v)"
    using L unfolding isValidPlacement_def Let_def row_scan col_scan box_scan
    by (simp split: if_splits)
  show ?R
  proof (intro allI impI)
    fix r' c' assume "r' < 9" "c' < 9" and h: "peer r c r' c' \<and> (r', c') \<noteq> (r, c)"
    then show "b ! r' ! c' \<noteq> v"
      using row col box unfolding peer_def by blast
  qed
next
  assume R: ?R
  have row: "\<not> (\<exists>c' < 9. c' \<noteq> c \<and> b ! r ! c' = v)"
    using R assms unfolding peer_def by blast
  have col: "\<not> (\<exists>r' < 9. r' \<noteq> r \<and> b ! r' ! c = v)"
    using R assms unfolding peer_def by blast
  have box: "\<not> (\<exists>r' c'. r' div 3 = r div 3 \<and> c' div 3 = c div 3 \<and> (r' \<noteq> r \<or> c' \<noteq> c) \<and> b ! r' ! c' = v)"
  proof
    assume "\<exists>r' c'. r' div 3 = r div 3 \<and> c' div 3 = c div 3 \<and> (r' \<noteq> r \<or> c' \<noteq> c) \<and> b ! r' ! c' = v"
    then obtain r' c' where h: "r' div 3 = r div 3" "c' div 3 = c div 3" "r' \<noteq> r \<or> c' \<noteq> c" "b ! r' ! c' = v"
      by blast
    have "r' < 9" "c' < 9" using h(1,2) assms by (auto dest: div3_lt9)
    then show False using R h unfolding peer_def by blast
  qed
  show ?L
    unfolding isValidPlacement_def Let_def row_scan col_scan box_scan
    using row col box by simp
qed

lemma find_cells_Some:
  assumes "find (\<lambda>(r, c). b ! r ! c = 0) cells = Some (r, c)"
  shows "r < 9 \<and> c < 9 \<and> b ! r ! c = 0"
proof -
  from assms have "(r, c) \<in> set cells \<and> b ! r ! c = 0"
    by (auto simp: find_Some_iff in_set_conv_nth)
  then show ?thesis by (simp add: set_cells)
qed

lemma find_cells_None:
  "find (\<lambda>(r, c). b ! r ! c = 0) cells = None \<longleftrightarrow> (\<forall>r < 9. \<forall>c < 9. b ! r ! c \<noteq> 0)"
  by (auto simp: find_None_iff set_cells)

lemma isBoardComplete_iff: "isBoardComplete b \<longleftrightarrow> (\<forall>r < 9. \<forall>c < 9. b ! r ! c \<noteq> 0)"
  unfolding isBoardComplete_def list_ex_iff by auto

subsection \<open>A failed search leaves the board as it found it\<close>

lemma tryCandidates_restores:
  assumes rec: "\<And>b0 bt0 b1 bt1. is9x9 b0 \<Longrightarrow> rec (b0, bt0) = Some (False, b1, bt1) \<Longrightarrow> b1 = b0"
    and b: "is9x9 b" "r < 9" "c < 9" "b ! r ! c = 0"
  shows "tryCandidates rec r c cands ks (b, bt) = Some (False, b', bt') \<Longrightarrow> b' = b"
proof (induction ks arbitrary: bt)
  case Nil
  then show ?case by simp
next
  case (Cons k ks)
  let ?num = "cands ! k"
  show ?case
  proof (cases "isValidPlacement b r c ?num")
    case False
    with Cons show ?thesis by simp
  next
    case True
    from Cons.prems True obtain ok b1 bt1 where
      r1: "rec (setCell b r c ?num, bt) = Some (ok, b1, bt1)"
      by (auto split: option.splits)
    with Cons.prems True have nok: "\<not> ok"
      and rest: "tryCandidates rec r c cands ks (setCell b1 r c 0, bt1 + 1) = Some (False, b', bt')"
      by (auto split: if_splits)
    from r1 nok have "rec (setCell b r c ?num, bt) = Some (False, b1, bt1)" by simp
    then have "b1 = setCell b r c ?num" by (rule rec [OF is9x9_setCell [OF b(1)]])
    then have "setCell b1 r c 0 = b" using b by (simp add: setCell_undo)
    with rest Cons.IH show ?thesis by simp
  qed
qed

lemma backtrack_restores:
  "is9x9 b \<Longrightarrow> backtrack fuel cube (b, bt) = Some (False, b', bt') \<Longrightarrow> b' = b"
proof (induction fuel arbitrary: b bt b' bt')
  case 0
  then show ?case by simp
next
  case (Suc fuel)
  show ?case
  proof (cases "find (\<lambda>(r, c). b ! r ! c = 0) cells")
    case None
    with Suc.prems show ?thesis by simp
  next
    case (Some rc)
    obtain r c where rc: "rc = (r, c)" by (cases rc)
    from Some rc have pos: "r < 9" "c < 9" "b ! r ! c = 0"
      using find_cells_Some by blast+
    from Suc.prems(2) Some rc
    have "tryCandidates (backtrack fuel cube) r c (cube ! r ! c) [0..<9] (b, bt) = Some (False, b', bt')"
      by simp
    moreover have "\<And>b0 bt0 b1 bt1. is9x9 b0 \<Longrightarrow>
        backtrack fuel cube (b0, bt0) = Some (False, b1, bt1) \<Longrightarrow> b1 = b0"
      using Suc.IH by blast
    ultimately show ?thesis
      using Suc.prems(1) pos by (rule tryCandidates_restores [rotated -1])
  qed
qed

subsection \<open>What a successful search went through\<close>

lemma tryCandidates_success:
  assumes rec: "\<And>b0 bt0 b1 bt1. is9x9 b0 \<Longrightarrow> rec (b0, bt0) = Some (False, b1, bt1) \<Longrightarrow> b1 = b0"
    and b: "is9x9 b" "r < 9" "c < 9" "b ! r ! c = 0"
  shows "tryCandidates rec r c cands ks (b, bt) = Some (True, b', bt') \<Longrightarrow>
         \<exists>k \<in> set ks. \<exists>bt0. isValidPlacement b r c (cands ! k) \<and>
            rec (setCell b r c (cands ! k), bt0) = Some (True, b', bt')"
proof (induction ks arbitrary: bt)
  case Nil
  then show ?case by simp
next
  case (Cons k ks)
  let ?num = "cands ! k"
  show ?case
  proof (cases "isValidPlacement b r c ?num")
    case False
    with Cons show ?thesis by simp
  next
    case True
    from Cons.prems True obtain ok b1 bt1 where
      r1: "rec (setCell b r c ?num, bt) = Some (ok, b1, bt1)"
      by (auto split: option.splits)
    show ?thesis
    proof (cases ok)
      case True
      with Cons.prems r1 \<open>isValidPlacement b r c ?num\<close> have "b1 = b'" "bt1 = bt'" by simp_all
      with r1 True \<open>isValidPlacement b r c ?num\<close> show ?thesis by auto
    next
      case False
      with Cons.prems r1 True
      have rest: "tryCandidates rec r c cands ks (setCell b1 r c 0, bt1 + 1) = Some (True, b', bt')"
        by simp
      from r1 False have "rec (setCell b r c ?num, bt) = Some (False, b1, bt1)" by simp
      then have "b1 = setCell b r c ?num" by (rule rec [OF is9x9_setCell [OF b(1)]])
      then have "setCell b1 r c 0 = b" using b by (simp add: setCell_undo)
      with rest Cons.IH show ?thesis by auto
    qed
  qed
qed

lemma backtrack_success_cases:
  assumes "is9x9 b" "backtrack (Suc fuel) cube (b, bt) = Some (True, b', bt')"
  shows "(isBoardComplete b \<and> b' = b \<and> bt' = bt) \<or>
         (\<exists>r c k bt0. r < 9 \<and> c < 9 \<and> k < 9 \<and> b ! r ! c = 0 \<and>
             isValidPlacement b r c (cube ! r ! c ! k) \<and>
             backtrack fuel cube (setCell b r c (cube ! r ! c ! k), bt0) = Some (True, b', bt'))"
proof (cases "find (\<lambda>(r, c). b ! r ! c = 0) cells")
  case None
  with assms show ?thesis by (simp add: find_cells_None isBoardComplete_iff)
next
  case (Some rc)
  obtain r c where rc: "rc = (r, c)" by (cases rc)
  from Some rc have pos: "r < 9" "c < 9" "b ! r ! c = 0"
    using find_cells_Some by blast+
  from assms(2) Some rc
  have "tryCandidates (backtrack fuel cube) r c (cube ! r ! c) [0..<9] (b, bt) = Some (True, b', bt')"
    by simp
  moreover have "\<And>b0 bt0 b1 bt1. is9x9 b0 \<Longrightarrow>
      backtrack fuel cube (b0, bt0) = Some (False, b1, bt1) \<Longrightarrow> b1 = b0"
    by (rule backtrack_restores)
  ultimately have "\<exists>k \<in> set [0..<9]. \<exists>bt0. isValidPlacement b r c (cube ! r ! c ! k) \<and>
      backtrack fuel cube (setCell b r c (cube ! r ! c ! k), bt0) = Some (True, b', bt')"
    using assms(1) pos by (rule tryCandidates_success [rotated -1])
  then obtain k bt0 where "k \<in> set [0..<9]" "isValidPlacement b r c (cube ! r ! c ! k)"
    "backtrack fuel cube (setCell b r c (cube ! r ! c ! k), bt0) = Some (True, b', bt')"
    by blast
  with pos show ?thesis by auto
qed

lemma backtrack_success_props:
  "is9x9 b \<Longrightarrow> backtrack fuel cube (b, bt) = Some (True, b', bt') \<Longrightarrow>
     is9x9 b' \<and> isBoardComplete b' \<and> (\<forall>r < 9. \<forall>c < 9. b ! r ! c \<noteq> 0 \<longrightarrow> b' ! r ! c = b ! r ! c)"
proof (induction fuel arbitrary: b bt)
  case 0
  then show ?case by simp
next
  case (Suc fuel)
  from backtrack_success_cases [OF Suc.prems]
  show ?case
  proof (elim disjE exE conjE)
    assume "isBoardComplete b" "b' = b"
    with Suc.prems(1) show ?thesis by simp
  next
    fix r c k bt0
    assume pos: "r < 9" "c < 9" "b ! r ! c = 0"
      and run: "backtrack fuel cube (setCell b r c (cube ! r ! c ! k), bt0) = Some (True, b', bt')"
    let ?b1 = "setCell b r c (cube ! r ! c ! k)"
    from Suc.IH [OF is9x9_setCell [OF Suc.prems(1)] run]
    have ih: "is9x9 b'" "isBoardComplete b'"
      "\<forall>r' < 9. \<forall>c' < 9. ?b1 ! r' ! c' \<noteq> 0 \<longrightarrow> b' ! r' ! c' = ?b1 ! r' ! c'"
      by blast+
    have "b' ! r' ! c' = b ! r' ! c'" if "r' < 9" "c' < 9" "b ! r' ! c' \<noteq> 0" for r' c'
    proof -
      from that pos have ne: "\<not> (r' = r \<and> c' = c)" by auto
      then have "?b1 ! r' ! c' = b ! r' ! c'" by (rule setCell_other)
      with ih(3) that show ?thesis by simp
    qed
    with ih show ?thesis by blast
  qed
qed

subsection \<open>The counter only grows\<close>

lemma tryCandidates_bt:
  assumes rec: "\<And>b0 bt0 ok b1 bt1. rec (b0, bt0) = Some (ok, b1, bt1) \<Longrightarrow> bt0 \<le> bt1"
  shows "tryCandidates rec r c cands ks (b, bt) = Some (ok, b', bt') \<Longrightarrow> bt \<le> bt'"
proof (induction ks arbitrary: b bt)
  case Nil
  then show ?case by simp
next
  case (Cons k ks)
  show ?case
  proof (cases "isValidPlacement b r c (cands ! k)")
    case False
    with Cons show ?thesis by simp
  next
    case True
    from Cons.prems True obtain ok1 b1 bt1 where
      r1: "rec (setCell b r c (cands ! k), bt) = Some (ok1, b1, bt1)"
      by (auto split: option.splits)
    then have le: "bt \<le> bt1" by (rule rec)
    show ?thesis
    proof (cases ok1)
      case True
      with Cons.prems r1 \<open>isValidPlacement b r c (cands ! k)\<close> le show ?thesis by simp
    next
      case False
      with Cons.prems r1 True
      have "tryCandidates rec r c cands ks (setCell b1 r c 0, bt1 + 1) = Some (ok, b', bt')"
        by simp
      then have "bt1 + 1 \<le> bt'" by (rule Cons.IH)
      with le show ?thesis by simp
    qed
  qed
qed

lemma backtrack_bt:
  "backtrack fuel cube (b, bt) = Some (ok, b', bt') \<Longrightarrow> bt \<le> bt'"
proof (induction fuel arbitrary: b bt ok b' bt')
  case 0
  then show ?case by simp
next
  case (Suc fuel)
  show ?case
  proof (cases "find (\<lambda>(r, c). b ! r ! c = 0) cells")
    case None
    with Suc.prems show ?thesis by simp
  next
    case (Some rc)
    obtain r c where rc: "rc = (r, c)" by (cases rc)
    from Suc.prems Some rc
    have "tryCandidates (backtrack fuel cube) r c (cube ! r ! c) [0..<9] (b, bt) = Some (ok, b', bt')"
      by simp
    moreover have "\<And>b0 bt0 ok b1 bt1. backtrack fuel cube (b0, bt0) = Some (ok, b1, bt1) \<Longrightarrow> bt0 \<le> bt1"
      by (rule Suc.IH)
    ultimately show ?thesis by (rule tryCandidates_bt [rotated -1])
  qed
qed

subsection \<open>More fuel gives the same result\<close>

lemma tryCandidates_mono:
  assumes rec: "\<And>s res. rec s = Some res \<Longrightarrow> rec' s = Some res"
  shows "tryCandidates rec r c cands ks (b, bt) = Some res \<Longrightarrow>
         tryCandidates rec' r c cands ks (b, bt) = Some res"
proof (induction ks arbitrary: b bt)
  case Nil
  then show ?case by simp
next
  case (Cons k ks)
  show ?case
  proof (cases "isValidPlacement b r c (cands ! k)")
    case False
    with Cons show ?thesis by simp
  next
    case True
    from Cons.prems True obtain ok1 b1 bt1 where
      r1: "rec (setCell b r c (cands ! k), bt) = Some (ok1, b1, bt1)"
      by (auto split: option.splits)
    then have r1': "rec' (setCell b r c (cands ! k), bt) = Some (ok1, b1, bt1)" by (rule rec)
    show ?thesis
    proof (cases ok1)
      case True
      with Cons.prems r1 r1' \<open>isValidPlacement b r c (cands ! k)\<close> show ?thesis by auto
    next
      case False
      with Cons.prems r1 True
      have "tryCandidates rec r c cands ks (setCell b1 r c 0, bt1 + 1) = Some res"
        by simp
      then have "tryCandidates rec' r c cands ks (setCell b1 r c 0, bt1 + 1) = Some res"
        by (rule Cons.IH)
      with r1' True False show ?thesis by simp
    qed
  qed
qed

lemma backtrack_fuel_mono:
  "backtrack fuel cube s = Some res \<Longrightarrow> backtrack (fuel + n) cube s = Some res"
proof (induction fuel arbitrary: s res)
  case 0
  then show ?case by simp
next
  case (Suc fuel)
  obtain b bt where s: "s = (b, bt)" by (cases s)
  show ?case
  proof (cases "find (\<lambda>(r, c). b ! r ! c = 0) cells")
    case None
    with Suc.prems s show ?thesis by simp
  next
    case (Some rc)
    obtain r c where rc: "rc = (r, c)" by (cases rc)
    from Suc.prems Some rc s
    have "tryCandidates (backtrack fuel cube) r c (cube ! r ! c) [0..<9] (b, bt) = Some res"
      by simp
    moreover have "\<And>s res. backtrack fuel cube s = Some res \<Longrightarrow> backtrack (fuel + n) cube s = Some res"
      by (rule Suc.IH)
    ultimately have "tryCandidates (backtrack (fuel + n) cube) r c (cube ! r ! c) [0..<9] (b, bt) = Some res"
      by (rule tryCandidates_mono [rotated -1])
    with Some rc s show ?thesis by simp
  qed
qed

lemma backtrack_fuel_le:
  "backtrack fuel cube s = Some res \<Longrightarrow> fuel \<le> fuel' \<Longrightarrow> backtrack fuel' cube s = Some res"
  using backtrack_fuel_mono [of fuel cube s res "fuel' - fuel"] by simp

subsection \<open>The solver entry point\<close>

lemma solve_Some_iff:
  "solveBoardWithStats fuel rng t0 t1 board cube = Some (st, board', rng') \<longleftrightarrow>
   (\<exists>cube' ok bt. (case cube of None \<Rightarrow> buildCandidateCube rng | Some cu \<Rightarrow> (cu, rng)) = (cube', rng') \<and>
      backtrack fuel cube' (board, 0) = Some (ok, board', bt) \<and>
      st = \<lparr>solved = ok, backtracks = bt, elapsedMs = t1 - t0\<rparr>)"
  unfolding solveBoardWithStats_def
  by (auto split: prod.splits option.splits)

subsection \<open>The cube built from a random stream of zeros\<close>

lemma shuffleLoop_zero:
  "shuffleLoop (Suc i) arr rng_zero = shuffleLoop i (arr[Suc i := arr ! 0, 0 := arr ! Suc i]) rng_zero"
  by (simp add: rng_zero_def)

lemma shuffle_zero:
  "shuffleArray [1, 2, 3, 4, 5, 6, 7, 8, 9 :: int] rng_zero = ([2, 3, 4, 5, 6, 7, 8, 9, 1], rng_zero)"
proof -
  have len: "length [1, 2, 3, 4, 5, 6, 7, 8, 9 :: int] - 1 = Suc (Suc (Suc (Suc (Suc (Suc (Suc (Suc 0)))))))"
    by simp
  show ?thesis
    unfolding shuffleArray_def len shuffleLoop_zero by simp
qed

lemma row_fold_zero:
  "fold (\<lambda>c (row, g). let (p, g') = shuffleArray [1, 2, 3, 4, 5, 6, 7, 8, 9 :: int] g in (row @ [p], g'))
        [0..<n] (row0, rng_zero)
   = (row0 @ replicate n [2, 3, 4, 5, 6, 7, 8, 9, 1], rng_zero)"
proof (induction n)
  case 0
  show ?case by simp
next
  case (Suc n)
  show ?case
    unfolding upt_Suc_append [OF le0] fold_append o_apply Suc
    by (simp add: shuffle_zero replicate_append_same)
qed

lemma buildCandidateRow_zero:
  "buildCandidateRow rng_zero = (replicate 9 [2, 3, 4, 5, 6, 7, 8, 9, 1], rng_zero)"
  unfolding buildCandidateRow_def row_fold_zero by (simp only: append_Nil)

lemma cube_fold_zero:
  "fold (\<lambda>r (cube, g). let (row, g') = buildCandidateRow g in (cube @ [row], g'))
        [0..<n] (cube0, rng_zero)
   = (cube0 @ replicate n (replicate 9 [2, 3, 4, 5, 6, 7, 8, 9, 1]), rng_zero)"
proof (induction n)
  case 0
  show ?case by simp
next
  case (Suc n)
  show ?case
    unfolding upt_Suc_append [OF le0] fold_append o_apply Suc
    by (simp add: buildCandidateRow_zero replicate_append_same)
qed

lemma buildCandidateCube_zero: "buildCandidateCube rng_zero = (rotatedCube, rng_zero)"
  unfolding buildCandidateCube_def rotatedCube_def cube_fold_zero by (simp only: append_Nil)

lemma solve_None_zero:
  "solveBoardWithStats fuel rng_zero t0 t1 b None = solveBoardWithStats fuel rng_zero t0 t1 b (Some rotatedCube)"
  by (simp add: solveBoardWithStats_def buildCandidateCube_zero)

subsection \<open>The conflict list is the filter of the cells\<close>

lemma validateCell_eq:
  "validateCell b r c acc = acc @ (if conflictAt b (r, c) then [(r, c)] else [])"
  by (auto simp: validateCell_def conflictAt_def Let_def)

lemma fold_validateCell:
  "fold (\<lambda>c. validateCell b r c) cs acc = acc @ filter (conflictAt b) (map (Pair r) cs)"
  by (induction cs arbitrary: acc) (simp_all add: validateCell_eq)

lemma fold_validateRow:
  "fold (\<lambda>r. fold (\<lambda>c. validateCell b r c) cs) rs acc
     = acc @ filter (conflictAt b) (List.product rs cs)"
  by (induction rs arbitrary: acc) (simp_all add: fold_validateCell)

lemma validateBoard_filter: "validateBoard b = filter (conflictAt b) cells"
  by (simp add: validateBoard_def cells_def fold_validateRow)

lemma validateBoard_empty_iff:
  "validateBoard b = [] \<longleftrightarrow> (\<forall>r < 9. \<forall>c < 9. \<not> conflictAt b (r, c))"
  by (auto simp: validateBoard_filter filter_empty_conv set_cells)

lemma sorted_wrt_product:
  assumes "sorted_wrt (<) xs" "sorted_wrt (<) ys"
  shows "sorted_wrt rowMajor (List.product xs ys)"
  using assms(1)
proof (induction xs)
  case Nil
  then show ?case by simp
next
  case (Cons x xs)
  have row: "sorted_wrt rowMajor (map (Pair x) ys)"
    using assms(2) by (simp add: sorted_wrt_map rowMajor_def)
  have rest: "sorted_wrt rowMajor (List.product xs ys)"
    using Cons by simp
  have cross: "\<forall>p \<in> set (map (Pair x) ys). \<forall>q \<in> set (List.product xs ys). rowMajor p q"
    using Cons.prems by (auto simp: rowMajor_def)
  from row rest cross show ?case
    by (simp only: product.simps sorted_wrt_append)
qed

lemma sorted_cells: "sorted_wrt rowMajor cells"
  unfolding cells_def by (rule sorted_wrt_product) simp_all

lemma sorted_validateBoard: "sorted_wrt rowMajor (validateBoard b)"
  unfolding validateBoard_filter using sorted_cells by (rule sorted_wrt_filter)

subsection \<open>Rows, columns and boxes of a full board without conflicts\<close>

lemma count_list_distinct: "distinct xs \<Longrightarrow> x \<in> set xs \<Longrightarrow> count_list xs x = 1"
  by (induction xs) (auto simp: count_list_0_iff)

lemma digits_1_9: "set [1, 2, 3, 4, 5, 6, 7, 8, 9 :: int] = {1..9}"
  by auto

lemma occursOnce_map:
  assumes "distinct xs" "length xs = 9" "inj_on f (set xs)"
    and "\<And>x. x \<in> set xs \<Longrightarrow> 1 \<le> f x \<and> f x \<le> 9"
  shows "occursOnce (map f xs)"
proof -
  have d: "distinct (map f xs)" using assms(1,3) by (simp add: distinct_map)
  have sub: "set (map f xs) \<subseteq> {1..9}" using assms(4) by auto
  have "card (set (map f xs)) = 9" using d assms(2) distinct_card [of "map f xs"] by simp
  then have "card (set (map f xs)) = card {1..9::int}" by simp
  with sub have "set (map f xs) = {1..9}" by (intro card_subset_eq) auto
  then have "count_list (map f xs) v = 1" if "v \<in> {1..9}" for v
    using that d by (intro count_list_distinct) auto
  then show ?thesis
    unfolding occursOnce_def list_all_iff digits_1_9 by blast
qed

lemma clean_cells:
  assumes "validateBoard b = []" "isBoardComplete b" "r < 9" "c < 9"
  shows "1 \<le> b ! r ! c \<and> b ! r ! c \<le> 9 \<and> isValidPlacement b r c (b ! r ! c)"
proof -
  from assms(2,3,4) have "b ! r ! c \<noteq> 0" by (simp add: isBoardComplete_iff)
  moreover from assms(1,3,4) have "\<not> conflictAt b (r, c)" by (simp add: validateBoard_empty_iff)
  ultimately show ?thesis by (auto simp: conflictAt_def)
qed

lemma clean_peers:
  assumes "validateBoard b = []" "isBoardComplete b"
    and "r < 9" "c < 9" "r' < 9" "c' < 9" "peer r c r' c'" "(r', c') \<noteq> (r, c)"
  shows "b ! r' ! c' \<noteq> b ! r ! c"
proof -
  have "isValidPlacement b r c (b ! r ! c)" using clean_cells [OF assms(1-4)] by simp
  then show ?thesis
    unfolding isValidPlacement_iff [OF assms(3,4)] using assms(5-8) by blast
qed

lemma clean_row:
  assumes "validateBoard b = []" "isBoardComplete b" "r < 9"
  shows "occursOnce (rowOf b r)"
  unfolding rowOf_def
proof (rule occursOnce_map)
  show "inj_on (\<lambda>c. b ! r ! c) (set [0..<9])"
  proof (rule inj_onI)
    fix x y assume "x \<in> set [0..<9]" "y \<in> set [0..<9]" "b ! r ! x = b ! r ! y"
    then show "x = y"
      using clean_peers [OF assms(1,2) assms(3) _ assms(3), of y x] by (auto simp: peer_def)
  qed
  show "\<And>x. x \<in> set [0..<9] \<Longrightarrow> 1 \<le> b ! r ! x \<and> b ! r ! x \<le> 9"
    using clean_cells [OF assms] by simp
qed simp_all

lemma clean_col:
  assumes "validateBoard b = []" "isBoardComplete b" "c < 9"
  shows "occursOnce (colOf b c)"
  unfolding colOf_def
proof (rule occursOnce_map)
  show "inj_on (\<lambda>r. b ! r ! c) (set [0..<9])"
  proof (rule inj_onI)
    fix x y assume "x \<in> set [0..<9]" "y \<in> set [0..<9]" "b ! x ! c = b ! y ! c"
    then show "x = y"
      using clean_peers [OF assms(1,2) _ assms(3) _ assms(3), of y x] by (auto simp: peer_def)
  qed
  show "\<And>x. x \<in> set [0..<9] \<Longrightarrow> 1 \<le> b ! x ! c \<and> b ! x ! c \<le> 9"
    using clean_cells [OF assms(1,2) _ assms(3)] by simp
qed simp_all

lemma box_cells:
  assumes "br < 3" "bc < 3" "(r, c) \<in> set (List.product [3 * br..<3 * br + 3] [3 * bc..<3 * bc + 3])"
  shows "r < 9 \<and> c < 9 \<and> r div 3 = br \<and> c div 3 = bc"
proof -
  from assms(3) have "3 * br \<le> r" "r < 3 * br + 3" "3 * bc \<le> c" "c < 3 * bc + 3"
    by simp_all
  with assms(1,2) show ?thesis by arith
qed

lemma clean_box:
  assumes "validateBoard b = []" "isBoardComplete b" "br < 3" "bc < 3"
  shows "occursOnce (boxOf b br bc)"
  unfolding boxOf_def
proof (rule occursOnce_map)
  let ?ps = "List.product [3 * br..<3 * br + 3] [3 * bc..<3 * bc + 3]"
  show "distinct ?ps" by (simp add: distinct_product)
  show "length ?ps = 9" by simp
  show "inj_on (\<lambda>(r, c). b ! r ! c) (set ?ps)"
  proof (rule inj_onI)
    fix x y assume x: "x \<in> set ?ps" and y: "y \<in> set ?ps"
      and eq: "(case x of (r, c) \<Rightarrow> b ! r ! c) = (case y of (r, c) \<Rightarrow> b ! r ! c)"
    obtain r c where xe: "x = (r, c)" by (cases x)
    obtain r' c' where ye: "y = (r', c')" by (cases y)
    from box_cells [OF assms(3,4)] x xe have px: "r < 9" "c < 9" "r div 3 = br" "c div 3 = bc"
      by blast+
    from box_cells [OF assms(3,4)] y ye have py: "r' < 9" "c' < 9" "r' div 3 = br" "c' div 3 = bc"
      by blast+
    have "peer r c r' c'" using px py by (simp add: peer_def)
    with clean_peers [OF assms(1,2) px(1,2) py(1,2)] eq xe ye show "x = y" by auto
  qed
  show "\<And>x. x \<in> set ?ps \<Longrightarrow> 1 \<le> (case x of (r, c) \<Rightarrow> b ! r ! c) \<and> (case x of (r, c) \<Rightarrow> b ! r ! c) \<le> 9"
  proof -
    fix x assume x: "x \<in> set ?ps"
    obtain r c where xe: "x = (r, c)" by (cases x)
    from box_cells [OF assms(3,4)] x xe have "r < 9" "c < 9" by blast+
    with clean_cells [OF assms(1,2)] xe
    show "1 \<le> (case x of (r, c) \<Rightarrow> b ! r ! c) \<and> (case x of (r, c) \<Rightarrow> b ! r ! c) \<le> 9" by simp
  qed
qed

subsection \<open>The shuffle permutes, and the cube built is well formed\<close>

lemma rng_ok_shift: "rng_ok rng \<Longrightarrow> rng_ok (\<lambda>n. rng (Suc n))"
  by (simp add: rng_ok_def)

lemma rng_ok_zero: "rng_ok rng_zero"
  by (simp add: rng_ok_def rng_zero_def)

lemma random_index:
  assumes "rng_ok rng"
  shows "nat \<lfloor>rng 0 * real (Suc i)\<rfloor> \<le> i"
proof -
  from assms have x: "0 \<le> rng 0" "rng 0 < 1" by (simp_all add: rng_ok_def)
  have "rng 0 * real (Suc i) < 1 * real (Suc i)"
    using x(2) by (intro mult_strict_right_mono) simp_all
  then have "\<lfloor>rng 0 * real (Suc i)\<rfloor> < int (Suc i)"
    by (simp add: floor_less_iff)
  then show ?thesis by linarith
qed

lemma shuffleLoop_perm:
  "rng_ok rng \<Longrightarrow> i < length arr \<Longrightarrow> shuffleLoop i arr rng = (arr', rng') \<Longrightarrow>
     mset arr' = mset arr \<and> rng_ok rng'"
proof (induction i arbitrary: arr rng)
  case 0
  then show ?case by simp
next
  case (Suc i)
  let ?j = "nat \<lfloor>rng 0 * real (Suc (Suc i))\<rfloor>"
  let ?arr = "arr[Suc i := arr ! ?j, ?j := arr ! Suc i]"
  have j: "?j \<le> Suc i" using Suc.prems(1) by (rule random_index)
  with Suc.prems(2) have jl: "?j < length arr" by simp
  from Suc.prems(3) have run: "shuffleLoop i ?arr (\<lambda>n. rng (Suc n)) = (arr', rng')"
    by (simp add: Let_def)
  have "i < length ?arr" using Suc.prems(2) by simp
  from Suc.IH [OF rng_ok_shift [OF Suc.prems(1)] this run]
  have "mset arr' = mset ?arr" "rng_ok rng'" by simp_all
  moreover have "mset ?arr = mset arr"
    using mset_swap [OF jl Suc.prems(2)] by simp
  ultimately show ?case by simp
qed

lemma shuffleArray_perm:
  assumes "rng_ok rng" "shuffleArray arr rng = (arr', rng')"
  shows "mset arr' = mset arr \<and> rng_ok rng'"
proof (cases "arr = []")
  case True
  with assms show ?thesis by (simp add: shuffleArray_def)
next
  case False
  then have len: "length arr - 1 < length arr" by (cases arr) simp_all
  show ?thesis
    by (rule shuffleLoop_perm [OF assms(1) len assms(2) [unfolded shuffleArray_def]])
qed

lemma shuffle_digits:
  assumes "rng_ok rng" "shuffleArray [1, 2, 3, 4, 5, 6, 7, 8, 9 :: int] rng = (p, rng')"
  shows "sort p = [1, 2, 3, 4, 5, 6, 7, 8, 9] \<and> rng_ok rng'"
proof -
  from shuffleArray_perm [OF assms]
  have m: "mset p = mset [1, 2, 3, 4, 5, 6, 7, 8, 9 :: int]" and g: "rng_ok rng'" by simp_all
  have "sort p = [1, 2, 3, 4, 5, 6, 7, 8, 9]"
    by (rule properties_for_sort) (simp_all add: m)
  with g show ?thesis by simp
qed

lemma row_fold_wf:
  "rng_ok rng \<Longrightarrow> list_all (\<lambda>p. sort p = [1, 2, 3, 4, 5, 6, 7, 8, 9]) row0 \<Longrightarrow>
   fold (\<lambda>c (row, g). let (p, g') = shuffleArray [1, 2, 3, 4, 5, 6, 7, 8, 9 :: int] g in (row @ [p], g'))
        cs (row0, rng) = (row, rng') \<Longrightarrow>
   length row = length row0 + length cs \<and>
   list_all (\<lambda>p. sort p = [1, 2, 3, 4, 5, 6, 7, 8, 9]) row \<and> rng_ok rng'"
proof (induction cs arbitrary: row0 rng)
  case Nil
  then show ?case by simp
next
  case (Cons c cs)
  obtain p g where sh: "shuffleArray [1, 2, 3, 4, 5, 6, 7, 8, 9 :: int] rng = (p, g)"
    by (cases "shuffleArray [1, 2, 3, 4, 5, 6, 7, 8, 9 :: int] rng")
  from shuffle_digits [OF Cons.prems(1) sh]
  have p: "sort p = [1, 2, 3, 4, 5, 6, 7, 8, 9]" and g: "rng_ok g" by simp_all
  from Cons.prems(2) p have all: "list_all (\<lambda>p. sort p = [1, 2, 3, 4, 5, 6, 7, 8, 9]) (row0 @ [p])"
    by simp
  from Cons.prems(3) sh
  have "fold (\<lambda>c (row, g). let (p, g') = shuffleArray [1, 2, 3, 4, 5, 6, 7, 8, 9 :: int] g in (row @ [p], g'))
          cs (row0 @ [p], g) = (row, rng')"
    by simp
  from Cons.IH [OF g all this] show ?case by simp
qed

lemma buildCandidateRow_wf:
  assumes "rng_ok rng" "buildCandidateRow rng = (row, rng')"
  shows "length row = 9 \<and> list_all (\<lambda>p. sort p = [1, 2, 3, 4, 5, 6, 7, 8, 9]) row \<and> rng_ok rng'"
  using row_fold_wf [OF assms(1) _ assms(2) [unfolded buildCandidateRow_def]] by simp

lemma cube_fold_wf:
  "rng_ok rng \<Longrightarrow>
   list_all (\<lambda>row. length row = 9 \<and> list_all (\<lambda>p. sort p = [1, 2, 3, 4, 5, 6, 7, 8, 9]) row) cube0 \<Longrightarrow>
   fold (\<lambda>r (cube, g). let (row, g') = buildCandidateRow g in (cube @ [row], g'))
        rs (cube0, rng) = (cube, rng') \<Longrightarrow>
   length cube = length cube0 + length rs \<and>
   list_all (\<lambda>row. length row = 9 \<and> list_all (\<lambda>p. sort p = [1, 2, 3, 4, 5, 6, 7, 8, 9]) row) cube \<and>
   rng_ok rng'"
proof (induction rs arbitrary: cube0 rng)
  case Nil
  then show ?case by simp
next
  case (Cons r rs)
  obtain row g where br: "buildCandidateRow rng = (row, g)"
    by (cases "buildCandidateRow rng")
  from buildCandidateRow_wf [OF Cons.prems(1) br]
  have row: "length row = 9" "list_all (\<lambda>p. sort p = [1, 2, 3, 4, 5, 6, 7, 8, 9]) row"
    and g: "rng_ok g" by simp_all
  from Cons.prems(2) row
  have all: "list_all (\<lambda>row. length row = 9 \<and> list_all (\<lambda>p. sort p = [1, 2, 3, 4, 5, 6, 7, 8, 9]) row) (cube0 @ [row])"
    by simp
  from Cons.prems(3) br
  have "fold (\<lambda>r (cube, g). let (row, g') = buildCandidateRow g in (cube @ [row], g'))
          rs (cube0 @ [row], g) = (cube, rng')"
    by simp
  from Cons.IH [OF g all this] show ?case by simp
qed

lemma buildCandidateCube_wf:
  assumes "rng_ok rng" "buildCandidateCube rng = (cube, rng')"
  shows "wf_cube cube \<and> rng_ok rng'"
  using cube_fold_wf [OF assms(1) _ assms(2) [unfolded buildCandidateCube_def]]
  by (simp add: wf_cube_def)

lemma digits_sorted:
  assumes "sort p = [1, 2, 3, 4, 5, 6, 7, 8, 9 :: int]"
  shows "length p = 9 \<and> set p = {1..9}"
proof -
  have "length (sort p) = length p" by simp
  moreover have "set (sort p) = set p" by simp
  ultimately show ?thesis unfolding assms using digits_1_9 by simp
qed

lemma wf_cube_entry:
  assumes "wf_cube cube" "r < 9" "c < 9"
  shows "length (cube ! r ! c) = 9 \<and> set (cube ! r ! c) = {1..9}"
proof -
  from assms have "sort (cube ! r ! c) = [1, 2, 3, 4, 5, 6, 7, 8, 9]"
    by (simp add: wf_cube_def list_all_length)
  then show ?thesis by (rule digits_sorted)
qed

lemma wf_cube_value:
  assumes "wf_cube cube" "r < 9" "c < 9" "k < 9"
  shows "1 \<le> cube ! r ! c ! k \<and> cube ! r ! c ! k \<le> 9"
proof -
  from wf_cube_entry [OF assms(1-3)] assms(4)
  have "cube ! r ! c ! k \<in> {1..9}" by (metis nth_mem)
  then show ?thesis by simp
qed

lemma wf_cube_covers:
  assumes "wf_cube cube" "r < 9" "c < 9" "1 \<le> v" "v \<le> 9"
  shows "\<exists>k < 9. cube ! r ! c ! k = v"
proof -
  from wf_cube_entry [OF assms(1-3)] assms(4,5)
  have "v \<in> set (cube ! r ! c)" "length (cube ! r ! c) = 9" by simp_all
  then show ?thesis by (metis in_set_conv_nth)
qed

subsection \<open>A valid placement keeps a board free of conflicts\<close>

lemma peer_sym: "peer r c r' c' \<Longrightarrow> peer r' c' r c"
  by (auto simp: peer_def)

lemma clean_setCell:
  assumes shape: "is9x9 b"
    and clean: "\<And>r' c'. r' < 9 \<Longrightarrow> c' < 9 \<Longrightarrow> \<not> conflictAt b (r', c')"
    and pos: "r < 9" "c < 9"
    and v: "1 \<le> v" "v \<le> 9" "isValidPlacement b r c v"
    and q: "r' < 9" "c' < 9"
  shows "\<not> conflictAt (setCell b r c v) (r', c')"
proof (cases "r' = r \<and> c' = c")
  case True
  have same: "setCell b r c v ! r ! c = v" by (rule setCell_same [OF shape pos])
  have "isValidPlacement (setCell b r c v) r c v"
    unfolding isValidPlacement_iff [OF pos]
  proof (intro allI impI)
    fix r2 c2 assume "r2 < 9" "c2 < 9" and h: "peer r c r2 c2 \<and> (r2, c2) \<noteq> (r, c)"
    then have "setCell b r c v ! r2 ! c2 = b ! r2 ! c2" by (intro setCell_other) auto
    moreover have "b ! r2 ! c2 \<noteq> v"
      using v(3) \<open>r2 < 9\<close> \<open>c2 < 9\<close> h unfolding isValidPlacement_iff [OF pos] by blast
    ultimately show "setCell b r c v ! r2 ! c2 \<noteq> v" by simp
  qed
  with True same v(1,2) show ?thesis by (simp add: conflictAt_def)
next
  case False
  then have other: "setCell b r c v ! r' ! c' = b ! r' ! c'" by (rule setCell_other)
  show ?thesis
  proof (cases "b ! r' ! c' = 0")
    case True
    with other show ?thesis by (simp add: conflictAt_def)
  next
    case nz: False
    from clean [OF q] nz have rng: "1 \<le> b ! r' ! c'" "b ! r' ! c' \<le> 9"
      and ok: "isValidPlacement b r' c' (b ! r' ! c')"
      by (auto simp: conflictAt_def)
    have "isValidPlacement (setCell b r c v) r' c' (b ! r' ! c')"
      unfolding isValidPlacement_iff [OF q]
    proof (intro allI impI)
      fix r2 c2 assume r2: "r2 < 9" "c2 < 9" and h: "peer r' c' r2 c2 \<and> (r2, c2) \<noteq> (r', c')"
      show "setCell b r c v ! r2 ! c2 \<noteq> b ! r' ! c'"
      proof (cases "r2 = r \<and> c2 = c")
        case True
        with h have "peer r c r' c'" "(r', c') \<noteq> (r, c)" by (auto dest: peer_sym)
        with v(3) q have "b ! r' ! c' \<noteq> v" unfolding isValidPlacement_iff [OF pos] by blast
        moreover from True have "setCell b r c v ! r2 ! c2 = v"
          using setCell_same [OF shape pos] by simp
        ultimately show ?thesis by simp
      next
        case False
        then have "setCell b r c v ! r2 ! c2 = b ! r2 ! c2" by (rule setCell_other)
        moreover have "b ! r2 ! c2 \<noteq> b ! r' ! c'"
          using ok r2 h unfolding isValidPlacement_iff [OF q] by blast
        ultimately show ?thesis by simp
      qed
    qed
    with other rng show ?thesis by (simp add: conflictAt_def)
  qed
qed

lemma backtrack_sound:
  "is9x9 b \<Longrightarrow> wf_cube cube \<Longrightarrow> validateBoard b = [] \<Longrightarrow>
   backtrack fuel cube (b, bt) = Some (True, b', bt') \<Longrightarrow> validateBoard b' = []"
proof (induction fuel arbitrary: b bt)
  case 0
  then show ?case by simp
next
  case (Suc fuel)
  from backtrack_success_cases [OF Suc.prems(1,4)]
  show ?case
  proof (elim disjE exE conjE)
    assume "b' = b"
    with Suc.prems(3) show ?thesis by simp
  next
    fix r c k bt0
    assume pos: "r < 9" "c < 9" "k < 9" "b ! r ! c = 0"
      and valid: "isValidPlacement b r c (cube ! r ! c ! k)"
      and run: "backtrack fuel cube (setCell b r c (cube ! r ! c ! k), bt0) = Some (True, b', bt')"
    let ?v = "cube ! r ! c ! k"
    from wf_cube_value [OF Suc.prems(2) pos(1,2,3)] have v: "1 \<le> ?v" "?v \<le> 9" by simp_all
    have "\<not> conflictAt (setCell b r c ?v) (r', c')" if "r' < 9" "c' < 9" for r' c'
      using Suc.prems(1) _ pos(1,2) v valid that
    proof (rule clean_setCell)
      fix r2 c2 :: nat assume "r2 < 9" "c2 < 9"
      with Suc.prems(3) show "\<not> conflictAt b (r2, c2)" by (simp add: validateBoard_empty_iff)
    qed
    then have "validateBoard (setCell b r c ?v) = []" by (simp add: validateBoard_empty_iff)
    from Suc.IH [OF is9x9_setCell [OF Suc.prems(1)] Suc.prems(2) this run] show ?thesis .
  qed
qed

subsection \<open>Every call returns\<close>

lemma emptyCount_card: "emptyCount b = card {(r, c). r < 9 \<and> c < 9 \<and> b ! r ! c = 0}"
proof -
  have "emptyCount b = card ({x. case x of (r, c) \<Rightarrow> b ! r ! c = 0} \<inter> set cells)"
    unfolding emptyCount_def using distinct_cells by (rule distinct_length_filter)
  also have "{x. case x of (r, c) \<Rightarrow> b ! r ! c = 0} \<inter> set cells = {(r, c). r < 9 \<and> c < 9 \<and> b ! r ! c = 0}"
    by (auto simp: set_cells)
  finally show ?thesis .
qed

lemma emptyCount_setCell:
  assumes "is9x9 b" "r < 9" "c < 9" "b ! r ! c = 0" "v \<noteq> 0"
  shows "emptyCount (setCell b r c v) < emptyCount b"
proof -
  let ?E = "{(r, c). r < 9 \<and> c < 9 \<and> b ! r ! c = 0}"
  let ?E' = "{(r', c'). r' < 9 \<and> c' < 9 \<and> setCell b r c v ! r' ! c' = 0}"
  have fin: "finite ?E"
    by (rule finite_subset [of _ "set cells"]) (auto simp: set_cells)
  have "?E' \<subseteq> ?E - {(r, c)}"
  proof
    fix x assume x: "x \<in> ?E'"
    obtain r' c' where xe: "x = (r', c')" by (cases x)
    with x have q: "r' < 9" "c' < 9" "setCell b r c v ! r' ! c' = 0" by simp_all
    have ne: "\<not> (r' = r \<and> c' = c)"
      using q(3) setCell_same [OF assms(1-3), of v] assms(5) by auto
    then have "setCell b r c v ! r' ! c' = b ! r' ! c'" by (rule setCell_other)
    with q ne xe show "x \<in> ?E - {(r, c)}" by simp
  qed
  then have "card ?E' \<le> card (?E - {(r, c)})"
    using fin by (intro card_mono) simp_all
  also have "\<dots> < card ?E"
    using fin assms(2-4) by (intro card_Diff1_less) simp_all
  finally show ?thesis by (simp add: emptyCount_card)
qed

lemma tryCandidates_total:
  assumes restore: "\<And>b0 bt0 b1 bt1. is9x9 b0 \<Longrightarrow> rec (b0, bt0) = Some (False, b1, bt1) \<Longrightarrow> b1 = b0"
    and total: "\<And>v bt0. v \<noteq> 0 \<Longrightarrow> rec (setCell b r c v, bt0) \<noteq> None"
    and b: "is9x9 b" "r < 9" "c < 9" "b ! r ! c = 0"
    and nz: "\<And>k. k \<in> set ks \<Longrightarrow> cands ! k \<noteq> 0"
  shows "tryCandidates rec r c cands ks (b, bt) \<noteq> None"
  using nz
proof (induction ks arbitrary: bt)
  case Nil
  then show ?case by simp
next
  case (Cons k ks)
  let ?num = "cands ! k"
  have IH: "tryCandidates rec r c cands ks (b, bt0) \<noteq> None" for bt0
    using Cons.IH Cons.prems by simp
  show ?case
  proof (cases "isValidPlacement b r c ?num")
    case False
    with IH show ?thesis by simp
  next
    case True
    have "?num \<noteq> 0" using Cons.prems by simp
    then have "rec (setCell b r c ?num, bt) \<noteq> None" by (rule total)
    then obtain ok b1 bt1 where r1: "rec (setCell b r c ?num, bt) = Some (ok, b1, bt1)"
      by (cases "rec (setCell b r c ?num, bt)") auto
    show ?thesis
    proof (cases ok)
      case True
      with r1 \<open>isValidPlacement b r c ?num\<close> show ?thesis by simp
    next
      case False
      with r1 have "rec (setCell b r c ?num, bt) = Some (False, b1, bt1)" by simp
      then have "b1 = setCell b r c ?num" by (rule restore [OF is9x9_setCell [OF b(1)]])
      then have "setCell b1 r c 0 = b" using b by (simp add: setCell_undo)
      with r1 False True IH [of "bt1 + 1"] show ?thesis by simp
    qed
  qed
qed

lemma backtrack_total:
  "is9x9 b \<Longrightarrow> wf_cube cube \<Longrightarrow> emptyCount b < fuel \<Longrightarrow> backtrack fuel cube (b, bt) \<noteq> None"
proof (induction fuel arbitrary: b bt)
  case 0
  then show ?case by simp
next
  case (Suc fuel)
  show ?case
  proof (cases "find (\<lambda>(r, c). b ! r ! c = 0) cells")
    case None
    then show ?thesis by simp
  next
    case (Some rc)
    obtain r c where rc: "rc = (r, c)" by (cases rc)
    from Some rc have pos: "r < 9" "c < 9" "b ! r ! c = 0"
      using find_cells_Some by blast+
    have restore: "\<And>b0 bt0 b1 bt1. is9x9 b0 \<Longrightarrow>
        backtrack fuel cube (b0, bt0) = Some (False, b1, bt1) \<Longrightarrow> b1 = b0"
      by (rule backtrack_restores)
    have total: "backtrack fuel cube (setCell b r c v, bt0) \<noteq> None" if "v \<noteq> 0" for v bt0
    proof (rule Suc.IH [OF is9x9_setCell [OF Suc.prems(1)] Suc.prems(2)])
      from emptyCount_setCell [OF Suc.prems(1) pos that] Suc.prems(3)
      show "emptyCount (setCell b r c v) < fuel" by simp
    qed
    have nz: "cube ! r ! c ! k \<noteq> 0" if "k \<in> set [0..<9]" for k
      using wf_cube_value [OF Suc.prems(2) pos(1,2), of k] that by auto
    have "tryCandidates (backtrack fuel cube) r c (cube ! r ! c) [0..<9] (b, bt) \<noteq> None"
      using restore total Suc.prems(1) pos nz by (rule tryCandidates_total)
    with Some rc show ?thesis by simp
  qed
qed

lemma emptyCount_le: "emptyCount b \<le> 81"
  unfolding emptyCount_def using length_filter_le [of _ cells] by (simp add: length_cells)

subsection \<open>Full boards and the cube argument\<close>

lemma backtrack_full:
  assumes "isBoardComplete b"
  shows "backtrack (Suc n) cube (b, bt) = Some (True, b, bt)"
proof -
  from assms have "find (\<lambda>(r, c). b ! r ! c = 0) cells = None"
    unfolding find_cells_None isBoardComplete_iff .
  then show ?thesis by simp
qed

lemma cubeArgOk_cases:
  assumes "cubeArgOk rng cube"
    and "(case cube of None \<Rightarrow> buildCandidateCube rng | Some cu \<Rightarrow> (cu, rng)) = (cube', rng')"
  shows "wf_cube cube'"
proof (cases cube)
  case None
  with assms show ?thesis by (simp add: cubeArgOk_def buildCandidateCube_wf)
next
  case (Some cu)
  with assms show ?thesis by (simp add: cubeArgOk_def)
qed

lemma isBoardSolved_iff: "isBoardSolved b \<longleftrightarrow> isBoardComplete b \<and> validateBoard b = []"
  by (simp add: isBoardSolved_def)

subsection \<open>The search finds a completion when there is one\<close>

lemma completes_iff:
  "completes g b \<longleftrightarrow>
     validateBoard g = [] \<and> isBoardComplete g \<and>
     (\<forall>r < 9. \<forall>c < 9. b ! r ! c \<noteq> 0 \<longrightarrow> b ! r ! c = g ! r ! c)"
  by (auto simp: completes_def isBoardSolved_iff list_all_iff set_cells)

lemma completes_valid:
  assumes g: "completes g b" and pos: "r < 9" "c < 9"
  shows "isValidPlacement b r c (g ! r ! c)"
  unfolding isValidPlacement_iff [OF pos]
proof (intro allI impI)
  fix r' c' assume q: "r' < 9" "c' < 9" and h: "peer r c r' c' \<and> (r', c') \<noteq> (r, c)"
  from g have clean: "validateBoard g = []" "isBoardComplete g"
    and agree: "\<forall>r < 9. \<forall>c < 9. b ! r ! c \<noteq> 0 \<longrightarrow> b ! r ! c = g ! r ! c"
    by (simp_all add: completes_iff)
  show "b ! r' ! c' \<noteq> g ! r ! c"
  proof (cases "b ! r' ! c' = 0")
    case True
    moreover have "g ! r ! c \<noteq> 0" using clean(2) pos by (simp add: isBoardComplete_iff)
    ultimately show ?thesis by simp
  next
    case False
    with agree q have "b ! r' ! c' = g ! r' ! c'" by simp
    moreover have "g ! r' ! c' \<noteq> g ! r ! c"
      using clean pos q h by (intro clean_peers) simp_all
    ultimately show ?thesis by simp
  qed
qed

lemma completes_setCell:
  assumes g: "completes g b" and shape: "is9x9 b" and pos: "r < 9" "c < 9"
  shows "completes g (setCell b r c (g ! r ! c))"
proof -
  have "setCell b r c (g ! r ! c) ! r' ! c' = g ! r' ! c'"
    if "r' < 9" "c' < 9" "setCell b r c (g ! r ! c) ! r' ! c' \<noteq> 0" for r' c'
  proof (cases "r' = r \<and> c' = c")
    case True
    then show ?thesis using setCell_same [OF shape pos] by simp
  next
    case False
    then have "setCell b r c (g ! r ! c) ! r' ! c' = b ! r' ! c'" by (rule setCell_other)
    with that g show ?thesis by (simp add: completes_iff)
  qed
  with g show ?thesis by (simp add: completes_iff)
qed

lemma tryCandidates_finds:
  assumes restore: "\<And>b0 bt0 b1 bt1. is9x9 b0 \<Longrightarrow> rec (b0, bt0) = Some (False, b1, bt1) \<Longrightarrow> b1 = b0"
    and total: "\<And>v bt0. v \<noteq> 0 \<Longrightarrow> rec (setCell b r c v, bt0) \<noteq> None"
    and good: "\<And>bt0. \<exists>b' bt'. rec (setCell b r c w, bt0) = Some (True, b', bt')"
    and valid: "isValidPlacement b r c w"
    and b: "is9x9 b" "r < 9" "c < 9" "b ! r ! c = 0"
    and nz: "\<And>k. k \<in> set ks \<Longrightarrow> cands ! k \<noteq> 0"
    and mem: "\<exists>k \<in> set ks. cands ! k = w"
  shows "\<exists>b' bt'. tryCandidates rec r c cands ks (b, bt) = Some (True, b', bt')"
  using nz mem
proof (induction ks arbitrary: bt)
  case Nil
  then show ?case by simp
next
  case (Cons k ks)
  let ?num = "cands ! k"
  show ?case
  proof (cases "?num = w")
    case True
    from good [of bt] obtain b' bt' where "rec (setCell b r c w, bt) = Some (True, b', bt')"
      by blast
    with True valid show ?thesis by simp
  next
    case False
    with Cons.prems(2) have mem': "\<exists>k \<in> set ks. cands ! k = w" by auto
    have IH: "\<exists>b' bt'. tryCandidates rec r c cands ks (b, bt0) = Some (True, b', bt')" for bt0
      using Cons.IH Cons.prems(1) mem' by simp
    show ?thesis
    proof (cases "isValidPlacement b r c ?num")
      case False
      with IH show ?thesis by simp
    next
      case True
      have "?num \<noteq> 0" using Cons.prems(1) by simp
      then have "rec (setCell b r c ?num, bt) \<noteq> None" by (rule total)
      then obtain ok b1 bt1 where r1: "rec (setCell b r c ?num, bt) = Some (ok, b1, bt1)"
        by (cases "rec (setCell b r c ?num, bt)") auto
      show ?thesis
      proof (cases ok)
        case True
        with r1 \<open>isValidPlacement b r c ?num\<close> show ?thesis by simp
      next
        case False
        with r1 have "rec (setCell b r c ?num, bt) = Some (False, b1, bt1)" by simp
        then have "b1 = setCell b r c ?num" by (rule restore [OF is9x9_setCell [OF b(1)]])
        then have "setCell b1 r c 0 = b" using b by (simp add: setCell_undo)
        with r1 False True IH [of "bt1 + 1"] show ?thesis by simp
      qed
    qed
  qed
qed

lemma backtrack_complete:
  "is9x9 b \<Longrightarrow> wf_cube cube \<Longrightarrow> emptyCount b < fuel \<Longrightarrow> completes g b \<Longrightarrow>
     \<exists>b' bt'. backtrack fuel cube (b, bt) = Some (True, b', bt')"
proof (induction fuel arbitrary: b bt)
  case 0
  then show ?case by simp
next
  case (Suc fuel)
  show ?case
  proof (cases "find (\<lambda>(r, c). b ! r ! c = 0) cells")
    case None
    then show ?thesis by simp
  next
    case (Some rc)
    obtain r c where rc: "rc = (r, c)" by (cases rc)
    from Some rc have pos: "r < 9" "c < 9" "b ! r ! c = 0"
      using find_cells_Some by blast+
    let ?w = "g ! r ! c"
    from Suc.prems(4) pos have w: "1 \<le> ?w" "?w \<le> 9"
      using clean_cells [of g r c] by (simp_all add: completes_iff)
    have less: "emptyCount (setCell b r c v) < fuel" if "v \<noteq> 0" for v
      using emptyCount_setCell [OF Suc.prems(1) pos that] Suc.prems(3) by simp
    have restore: "\<And>b0 bt0 b1 bt1. is9x9 b0 \<Longrightarrow>
        backtrack fuel cube (b0, bt0) = Some (False, b1, bt1) \<Longrightarrow> b1 = b0"
      by (rule backtrack_restores)
    have total: "backtrack fuel cube (setCell b r c v, bt0) \<noteq> None" if "v \<noteq> 0" for v bt0
      using is9x9_setCell [OF Suc.prems(1)] Suc.prems(2) less [OF that] by (rule backtrack_total)
    have good: "\<exists>b' bt'. backtrack fuel cube (setCell b r c ?w, bt0) = Some (True, b', bt')" for bt0
    proof (rule Suc.IH [OF is9x9_setCell [OF Suc.prems(1)] Suc.prems(2)])
      show "emptyCount (setCell b r c ?w) < fuel" using w by (intro less) simp
      show "completes g (setCell b r c ?w)"
        using Suc.prems(4,1) pos(1,2) by (rule completes_setCell)
    qed
    have valid: "isValidPlacement b r c ?w"
      using Suc.prems(4) pos(1,2) by (rule completes_valid)
    have nz: "cube ! r ! c ! k \<noteq> 0" if "k \<in> set [0..<9]" for k
      using wf_cube_value [OF Suc.prems(2) pos(1,2), of k] that by auto
    have mem: "\<exists>k \<in> set [0..<9]. cube ! r ! c ! k = ?w"
      using wf_cube_covers [OF Suc.prems(2) pos(1,2) w] by auto
    have "\<exists>b' bt'. tryCandidates (backtrack fuel cube) r c (cube ! r ! c) [0..<9] (b, bt)
            = Some (True, b', bt')"
      using restore total good valid Suc.prems(1) pos nz mem by (rule tryCandidates_finds)
    with Some rc show ?thesis by simp
  qed
qed

lemma emptyBoard_props:
  "is9x9 (replicate 9 (replicate 9 0))"
  "r < 9 \<Longrightarrow> c < 9 \<Longrightarrow> replicate 9 (replicate 9 (0::int)) ! r ! c = 0"
  by (simp_all add: is9x9_def list_all_iff)

lemma solvedGrid_solved: "isBoardSolved solvedGrid"
  by code_simp

lemma emptyBoard_completes: "completes solvedGrid (replicate 9 (replicate 9 0))"
  using solvedGrid_solved by (simp add: completes_iff isBoardSolved_iff emptyBoard_props)

lemma validateBoard_emptyBoard: "validateBoard (replicate 9 (replicate 9 0)) = []"
  by (simp add: validateBoard_empty_iff conflictAt_def emptyBoard_props)

lemma generateFullSolution_ok:
  assumes "rng_ok rng" "81 < fuel"
  shows "\<exists>solution st rng'. generateFullSolution fuel rng t0 t1 = Some (solution, st, rng') \<and>
           is9x9 solution \<and> isBoardSolved solution \<and> rng_ok rng'"
proof -
  let ?e = "replicate 9 (replicate 9 (0::int))"
  obtain cube rng' where cu: "buildCandidateCube rng = (cube, rng')"
    by (cases "buildCandidateCube rng")
  from buildCandidateCube_wf [OF assms(1) cu] have wf: "wf_cube cube" and g: "rng_ok rng'"
    by simp_all
  have "emptyCount ?e < fuel" using emptyCount_le [of ?e] assms(2) by simp
  from backtrack_complete [OF emptyBoard_props(1) wf this emptyBoard_completes, of 0]
  obtain b' bt' where run: "backtrack fuel cube (?e, 0) = Some (True, b', bt')" by blast
  from backtrack_success_props [OF emptyBoard_props(1) run]
  have shape: "is9x9 b'" and full: "isBoardComplete b'" by simp_all
  from backtrack_sound [OF emptyBoard_props(1) wf validateBoard_emptyBoard run]
  have "validateBoard b' = []" .
  with full have "isBoardSolved b'" by (simp add: isBoardSolved_iff)
  moreover have "generateFullSolution fuel rng t0 t1
      = Some (b', \<lparr>solved = True, backtracks = bt', elapsedMs = t1 - t0\<rparr>, rng')"
    using cu run by (simp add: generateFullSolution_def solveBoardWithStats_def)
  ultimately show ?thesis using shape g by blast
qed

subsection \<open>The removal loop\<close>

lemma removeLoop_cell:
  "is9x9 p \<Longrightarrow> set ps \<subseteq> set cells \<Longrightarrow>
   is9x9 (removeLoop i t ps p) \<and>
   (\<forall>r c. removeLoop i t ps p ! r ! c =
      (if \<exists>k. i \<le> k \<and> int k < t \<and> k < length ps \<and> ps ! k = (r, c) then 0 else p ! r ! c))"
proof (induction i t ps p rule: removeLoop.induct)
  case (1 i t ps p)
  show ?case
  proof (cases "int i < t \<and> i < length ps")
    case False
    then have stop: "removeLoop i t ps p = p" by (subst removeLoop.simps) auto
    from False have none: "\<not> (\<exists>k. i \<le> k \<and> int k < t \<and> k < length ps \<and> ps ! k = (r, c))" for r c
      by auto
    show ?thesis unfolding stop using "1.prems"(1) none by auto
  next
    case True
    obtain r0 c0 where at: "ps ! i = (r0, c0)" by (cases "ps ! i")
    from True "1.prems"(2) at have pos: "r0 < 9" "c0 < 9"
      using nth_mem [of i ps] by (auto simp: set_cells)
    let ?p = "setCell p r0 c0 0"
    have step: "removeLoop i t ps p = removeLoop (Suc i) t ps ?p"
      using True at by (subst removeLoop.simps) simp
    from "1.IH" [OF True at [symmetric] is9x9_setCell [OF "1.prems"(1)] "1.prems"(2)]
    have ih: "is9x9 (removeLoop (Suc i) t ps ?p) \<and>
        (\<forall>r c. removeLoop (Suc i) t ps ?p ! r ! c =
          (if \<exists>k. Suc i \<le> k \<and> int k < t \<and> k < length ps \<and> ps ! k = (r, c) then 0 else ?p ! r ! c))"
      by simp
    then have shape: "is9x9 (removeLoop (Suc i) t ps ?p)" by (rule conjunct1)
    from ih have cell: "removeLoop (Suc i) t ps ?p ! r ! c =
        (if \<exists>k. Suc i \<le> k \<and> int k < t \<and> k < length ps \<and> ps ! k = (r, c) then 0 else ?p ! r ! c)"
      for r c by blast
    have "removeLoop i t ps p ! r ! c =
        (if \<exists>k. i \<le> k \<and> int k < t \<and> k < length ps \<and> ps ! k = (r, c) then 0 else p ! r ! c)"
      for r c
    proof (cases "\<exists>k. Suc i \<le> k \<and> int k < t \<and> k < length ps \<and> ps ! k = (r, c)")
      case True
      then have "\<exists>k. i \<le> k \<and> int k < t \<and> k < length ps \<and> ps ! k = (r, c)"
        by (metis Suc_leD)
      with True show ?thesis by (simp only: step cell if_True)
    next
      case later: False
      show ?thesis
      proof (cases "(r, c) = (r0, c0)")
        case True
        then have "\<exists>k. i \<le> k \<and> int k < t \<and> k < length ps \<and> ps ! k = (r, c)"
          using \<open>int i < t \<and> i < length ps\<close> at by auto
        moreover have "?p ! r ! c = 0" using True setCell_same [OF "1.prems"(1) pos] by simp
        ultimately show ?thesis using later by (simp only: step cell if_True if_False)
      next
        case False
        then have same: "?p ! r ! c = p ! r ! c" by (intro setCell_other) auto
        have "\<not> (\<exists>k. i \<le> k \<and> int k < t \<and> k < length ps \<and> ps ! k = (r, c))"
        proof
          assume "\<exists>k. i \<le> k \<and> int k < t \<and> k < length ps \<and> ps ! k = (r, c)"
          then obtain k where k: "i \<le> k" "int k < t" "k < length ps" "ps ! k = (r, c)" by blast
          with False at have "k \<noteq> i" by auto
          with k have "Suc i \<le> k" by simp
          with k later show False by blast
        qed
        with later same show ?thesis by (simp only: step cell if_False)
      qed
    qed
    with shape step show ?thesis by simp
  qed
qed

lemma removed_positions:
  "(\<exists>k. 0 \<le> k \<and> int k < t \<and> k < length ps \<and> ps ! k = x) \<longleftrightarrow> x \<in> set (take (nat t) ps)"
proof -
  have "x \<in> set (take (nat t) ps) \<longleftrightarrow> (\<exists>k < length (take (nat t) ps). take (nat t) ps ! k = x)"
    by (rule in_set_conv_nth)
  also have "\<dots> \<longleftrightarrow> (\<exists>k. int k < t \<and> k < length ps \<and> ps ! k = x)"
    by (auto simp: zless_nat_eq_int_zless)
  finally show ?thesis by simp
qed

lemma countNonZero_removeLoop:
  assumes shape: "is9x9 s" and full: "isBoardComplete s"
    and ps: "mset ps = mset cells"
    and t: "0 \<le> t" "t \<le> 81"
  shows "countNonZero (removeLoop 0 t ps s) = 81 - nat t"
    and "\<forall>r < 9. \<forall>c < 9. removeLoop 0 t ps s ! r ! c \<noteq> 0 \<longrightarrow> removeLoop 0 t ps s ! r ! c = s ! r ! c"
proof -
  have sub: "set ps = set cells" using ps by (rule mset_eq_setD)
  have dist: "distinct ps" using ps distinct_cells by (metis mset_eq_imp_distinct_iff)
  have len: "length ps = 81" using ps length_cells by (metis mset_eq_length)
  let ?gone = "set (take (nat t) ps)"
  have cell: "removeLoop 0 t ps s ! r ! c = (if (r, c) \<in> ?gone then 0 else s ! r ! c)" for r c
    using removeLoop_cell [OF shape, of ps 0 t] sub removed_positions [of t ps "(r, c)"] by simp
  show "\<forall>r < 9. \<forall>c < 9. removeLoop 0 t ps s ! r ! c \<noteq> 0 \<longrightarrow> removeLoop 0 t ps s ! r ! c = s ! r ! c"
    by (simp add: cell)
  have nz: "s ! r ! c \<noteq> 0" if "(r, c) \<in> set cells" for r c
    using full that by (simp add: isBoardComplete_iff set_cells)
  have "filter (\<lambda>(r, c). removeLoop 0 t ps s ! r ! c \<noteq> 0) cells = filter (\<lambda>x. x \<notin> ?gone) cells"
    by (rule filter_cong) (auto simp: cell nz)
  then have "countNonZero (removeLoop 0 t ps s) = length (filter (\<lambda>x. x \<notin> ?gone) cells)"
    by (simp add: countNonZero_def)
  also have "\<dots> = card ({x. x \<notin> ?gone} \<inter> set cells)"
    using distinct_cells by (rule distinct_length_filter)
  also have "{x. x \<notin> ?gone} \<inter> set cells = set cells - ?gone" by auto
  also have "card (set cells - ?gone) = card (set cells) - card ?gone"
    using sub by (intro card_Diff_subset) (auto dest: in_set_takeD)
  also have "card (set cells) = 81"
    using distinct_card [OF distinct_cells] length_cells by simp
  also have "card ?gone = nat t"
    using distinct_card [OF distinct_take [OF dist], of "nat t"] len t by simp
  finally show "countNonZero (removeLoop 0 t ps s) = 81 - nat t" .
qed

subsection \<open>The counter does not steer the search\<close>

lemma tryCandidates_shift:
  assumes rec: "\<And>x n. rec (x, n) = map_option (\<lambda>(ok, b', m). (ok, b', m + n)) (rec (x, 0))"
  shows "tryCandidates rec r c cands ks (b, m + n)
           = map_option (\<lambda>(ok, b', m). (ok, b', m + n)) (tryCandidates rec r c cands ks (b, m))"
proof (induction ks arbitrary: b m)
  case Nil
  show ?case by simp
next
  case (Cons k ks)
  let ?x = "setCell b r c (cands ! k)"
  show ?case
  proof (cases "isValidPlacement b r c (cands ! k)")
    case False
    with Cons show ?thesis by simp
  next
    case True
    show ?thesis
    proof (cases "rec (?x, 0)")
      case None
      then have "rec (?x, m + n) = None" "rec (?x, m) = None"
        using rec [of ?x "m + n"] rec [of ?x m] by simp_all
      with True show ?thesis by simp
    next
      case (Some res)
      obtain ok b1 q where res: "res = (ok, b1, q)" by (cases res)
      from Some res have a: "rec (?x, m + n) = Some (ok, b1, q + (m + n))"
        and b: "rec (?x, m) = Some (ok, b1, q + m)"
        using rec [of ?x "m + n"] rec [of ?x m] by simp_all
      show ?thesis
      proof (cases ok)
        case True
        with a b \<open>isValidPlacement b r c (cands ! k)\<close> show ?thesis by simp
      next
        case False
        have eq: "q + (m + n) + 1 = (q + m + 1) + n" by simp
        have "tryCandidates rec r c cands ks (setCell b1 r c 0, q + (m + n) + 1)
            = map_option (\<lambda>(ok, b', m). (ok, b', m + n))
                (tryCandidates rec r c cands ks (setCell b1 r c 0, q + m + 1))"
          unfolding eq by (rule Cons.IH)
        with a b False True show ?thesis by simp
      qed
    qed
  qed
qed

lemma backtrack_shift:
  "backtrack fuel cube (b, n) = map_option (\<lambda>(ok, b', m). (ok, b', m + n)) (backtrack fuel cube (b, 0))"
proof (induction fuel arbitrary: b n)
  case 0
  show ?case by simp
next
  case (Suc fuel)
  show ?case
  proof (cases "find (\<lambda>(r, c). b ! r ! c = 0) cells")
    case None
    then show ?thesis by simp
  next
    case (Some rc)
    obtain r c where rc: "rc = (r, c)" by (cases rc)
    have "tryCandidates (backtrack fuel cube) r c (cube ! r ! c) [0..<9] (b, 0 + n)
        = map_option (\<lambda>(ok, b', m). (ok, b', m + n))
            (tryCandidates (backtrack fuel cube) r c (cube ! r ! c) [0..<9] (b, 0))"
      by (rule tryCandidates_shift) (rule Suc.IH)
    with Some rc show ?thesis by simp
  qed
qed

subsection \<open>The candidates of a cell are tried in the order of the cube\<close>

lemma tryCandidates_order:
  fixes rec :: "board \<times> int \<Rightarrow> (bool \<times> board \<times> int) option"
    and b :: board and r c :: nat and cands :: "int list"
  defines "sub \<equiv> \<lambda>k. rec (setCell b r c (cands ! k), 0)"
  defines "failed \<equiv> \<lambda>k. \<not> isValidPlacement b r c (cands ! k) \<or>
                          (\<exists>m. sub k = Some (False, setCell b r c (cands ! k), m))"
  defines "cost \<equiv> \<lambda>k. if isValidPlacement b r c (cands ! k)
                        then (case sub k of None \<Rightarrow> 0 | Some (ok, b1, m) \<Rightarrow> m + 1) else (0::int)"
  assumes shift0: "\<forall>x n. rec (x, n) = map_option (\<lambda>(ok, b', m). (ok, b', m + n)) (rec (x, 0))"
    and restore0: "\<forall>b0 bt0 b1 bt1. is9x9 b0 \<longrightarrow> rec (b0, bt0) = Some (False, b1, bt1) \<longrightarrow> b1 = b0"
    and b: "is9x9 b" "r < 9" "b ! r ! c = 0"
  shows "tryCandidates rec r c cands ks (b, bt) = Some (ok, b', bt') \<Longrightarrow>
         \<exists>i \<le> length ks. (\<forall>j < i. failed (ks ! j)) \<and>
           (if ok then i < length ks \<and> isValidPlacement b r c (cands ! (ks ! i)) \<and>
                       (\<exists>m. sub (ks ! i) = Some (True, b', m) \<and>
                            bt' = bt + sum_list (map cost (take i ks)) + m)
            else i = length ks \<and> b' = b \<and> bt' = bt + sum_list (map cost ks))"
proof (induction ks arbitrary: bt)
  case Nil
  then show ?case by auto
next
  case (Cons k ks)
  have shift: "rec (x, n) = map_option (\<lambda>(ok, b', m). (ok, b', m + n)) (rec (x, 0))" for x n
    using shift0 by blast
  have restore: "b1 = b0" if "is9x9 b0" "rec (b0, bt0) = Some (False, b1, bt1)" for b0 bt0 b1 bt1
    using restore0 that by blast
  let ?x = "setCell b r c (cands ! k)"
  let ?Q = "\<lambda>ks bt i. (\<forall>j < i. failed (ks ! j)) \<and>
           (if ok then i < length ks \<and> isValidPlacement b r c (cands ! (ks ! i)) \<and>
                       (\<exists>m. sub (ks ! i) = Some (True, b', m) \<and>
                            bt' = bt + sum_list (map cost (take i ks)) + m)
            else i = length ks \<and> b' = b \<and> bt' = bt + sum_list (map cost ks))"
  have step: "\<exists>i \<le> length (k # ks). ?Q (k # ks) bt i"
    if fk: "failed k" and rest: "\<exists>i \<le> length ks. ?Q ks (bt + cost k) i"
  proof -
    from rest obtain i where i: "i \<le> length ks" and q: "?Q ks (bt + cost k) i" by blast
    have "\<forall>j < Suc i. failed ((k # ks) ! j)"
    proof (intro allI impI)
      fix j assume "j < Suc i"
      then show "failed ((k # ks) ! j)" using fk q by (cases j) auto
    qed
    moreover have "(if ok then Suc i < length (k # ks) \<and>
                       isValidPlacement b r c (cands ! ((k # ks) ! Suc i)) \<and>
                       (\<exists>m. sub ((k # ks) ! Suc i) = Some (True, b', m) \<and>
                            bt' = bt + sum_list (map cost (take (Suc i) (k # ks))) + m)
            else Suc i = length (k # ks) \<and> b' = b \<and> bt' = bt + sum_list (map cost (k # ks)))"
      using q by (auto simp: add.assoc)
    ultimately have "?Q (k # ks) bt (Suc i)" by blast
    moreover have "Suc i \<le> length (k # ks)" using i by simp
    ultimately show ?thesis by blast
  qed
  show ?case
  proof (cases "isValidPlacement b r c (cands ! k)")
    case False
    then have fk: "failed k" and ck: "cost k = 0" by (simp_all add: failed_def cost_def)
    from Cons.prems False have run: "tryCandidates rec r c cands ks (b, bt) = Some (ok, b', bt')"
      by simp
    have eq: "bt + cost k = bt" using ck by simp
    have "\<exists>i \<le> length ks. ?Q ks (bt + cost k) i"
      unfolding eq by (rule Cons.IH [OF run])
    with fk show ?thesis by (rule step)
  next
    case True
    from Cons.prems True obtain ok1 b1 bt1 where
      r1: "rec (?x, bt) = Some (ok1, b1, bt1)"
      by (auto split: option.splits)
    have "\<exists>m. sub k = Some (ok1, b1, m) \<and> bt1 = m + bt"
    proof (cases "rec (?x, 0)")
      case None
      with shift [of ?x bt] r1 show ?thesis by simp
    next
      case (Some res)
      obtain o2 b2 m2 where "res = (o2, b2, m2)" by (cases res)
      with Some shift [of ?x bt] r1 show ?thesis by (simp add: sub_def)
    qed
    then obtain m where r0: "sub k = Some (ok1, b1, m)" and bt1: "bt1 = m + bt"
      by blast
    show ?thesis
    proof (cases ok1)
      case ok1: True
      with Cons.prems r1 True have res: "ok" "b' = b1" "bt' = bt1" by simp_all
      have "?Q (k # ks) bt 0"
        using res True r0 ok1 bt1 by simp
      then show ?thesis by blast
    next
      case nok: False
      with r1 have "rec (?x, bt) = Some (False, b1, bt1)" by simp
      then have b1: "b1 = ?x" by (rule restore [OF is9x9_setCell [OF b(1)]])
      then have undo: "setCell b1 r c 0 = b" using b by (simp add: setCell_undo)
      from r0 nok b1 have fk: "failed k" by (auto simp: failed_def)
      from r0 True have ck: "cost k = m + 1" by (simp add: cost_def)
      from Cons.prems r1 True nok undo
      have run: "tryCandidates rec r c cands ks (b, bt1 + 1) = Some (ok, b', bt')" by simp
      have eq: "bt + cost k = bt1 + 1" using bt1 ck by simp
      have "\<exists>i \<le> length ks. ?Q ks (bt + cost k) i"
        unfolding eq by (rule Cons.IH [OF run])
      with fk show ?thesis by (rule step)
    qed
  qed
qed

lemma solve_with_cube:
  "solveBoardWithStats fuel rng t0 t1 x (Some cube) =
     (case backtrack fuel cube (x, 0) of
        None \<Rightarrow> None
      | Some (ok, b1, m) \<Rightarrow> Some (\<lparr>solved = ok, backtracks = m, elapsedMs = t1 - t0\<rparr>, b1, rng))"
  by (simp add: solveBoardWithStats_def)

lemma candidateFails_iff:
  "candidateFails fuel rng t0 t1 cube b r c v \<longleftrightarrow>
     \<not> isValidPlacement b r c v \<or>
     (\<exists>m. backtrack fuel cube (setCell b r c v, 0) = Some (False, setCell b r c v, m))"
  unfolding candidateFails_def solve_with_cube
  by (cases "backtrack fuel cube (setCell b r c v, 0)") auto

lemma candidateCost_eq:
  "candidateCost fuel rng t0 t1 cube b r c v =
     (if isValidPlacement b r c v
      then (case backtrack fuel cube (setCell b r c v, 0) of None \<Rightarrow> 0 | Some (ok, b1, m) \<Rightarrow> m + 1)
      else 0)"
  unfolding candidateCost_def solve_with_cube
  by (cases "backtrack fuel cube (setCell b r c v, 0)") auto

lemma take_upt_9: "i \<le> 9 \<Longrightarrow> take i [0..<9] = [0..<i]"
  by simp

section \<open>Claims\<close>

text \<open>
  C1. As stated the claim fails: a full board is accepted as solved whatever it holds.
  It holds for a board on which \<open>validateBoard\<close> reports no conflict, with a candidate
  cube that holds a permutation of 1..9 in every cell (or none supplied): if
  \<open>solveBoardWithStats\<close> or \<open>solveBoard\<close> returns \<open>solved = true\<close>, then
  \<open>isBoardSolved\<close> is true of the board left behind.
\<close>

theorem C1_solved_board_is_solved:
  assumes "is9x9 board" "validateBoard board = []" "cubeArgOk rng cube"
  shows "(\<forall>st board' rng'.
            solveBoardWithStats fuel rng t0 t1 board cube = Some (st, board', rng') \<and> solved st
            \<longrightarrow> isBoardSolved board') \<and>
         (\<forall>board' rng'.
            rng_ok rng \<and> solveBoard fuel rng t0 t1 board = Some (True, board', rng')
            \<longrightarrow> isBoardSolved board')"
proof -
  have main: "isBoardSolved board'"
    if ok: "cubeArgOk rng cu"
      and run: "solveBoardWithStats fuel rng t0 t1 board cu = Some (st, board', rng')"
      and s: "solved st"
    for st board' rng' cu
  proof -
    from run obtain cube' ok bt where
      cu: "(case cu of None \<Rightarrow> buildCandidateCube rng | Some x \<Rightarrow> (x, rng)) = (cube', rng')"
      and bt: "backtrack fuel cube' (board, 0) = Some (ok, board', bt)"
      and st: "st = \<lparr>solved = ok, backtracks = bt, elapsedMs = t1 - t0\<rparr>"
      unfolding solve_Some_iff by blast
    from st s bt have bt': "backtrack fuel cube' (board, 0) = Some (True, board', bt)" by simp
    have wf: "wf_cube cube'" using ok cu by (rule cubeArgOk_cases)
    from backtrack_success_props [OF assms(1) bt'] have "isBoardComplete board'" by simp
    moreover from backtrack_sound [OF assms(1) wf assms(2) bt'] have "validateBoard board' = []" .
    ultimately show ?thesis by (simp add: isBoardSolved_iff)
  qed
  have "isBoardSolved board'"
    if "rng_ok rng" "solveBoard fuel rng t0 t1 board = Some (True, board', rng')" for board' rng'
  proof -
    from that(2) obtain st where
      "solveBoardWithStats fuel rng t0 t1 board None = Some (st, board', rng')" "solved st"
      unfolding solveBoard_def by (auto split: option.splits)
    moreover have "cubeArgOk rng None" using that(1) by (simp add: cubeArgOk_def)
    ultimately show ?thesis using main by blast
  qed
  with main [OF assms(3)] show ?thesis by blast
qed

theorem C1_witness:
  "is9x9 threeBlanks \<and> validateBoard threeBlanks = [] \<and> cubeArgOk rng_zero (Some ascendingCube) \<and>
   rng_ok rng_zero \<and>
   (\<exists>st board' g. solveBoardWithStats 82 rng_zero 0 1 threeBlanks (Some ascendingCube) = Some (st, board', g)
       \<and> solved st \<and> isBoardSolved board') \<and>
   (\<exists>board' g. solveBoard 82 rng_zero 0 1 threeBlanks = Some (True, board', g)
       \<and> isBoardSolved board')"
proof -
  have shape: "is9x9 threeBlanks" by code_simp
  have clean: "validateBoard threeBlanks = []" by code_simp
  have "wf_cube ascendingCube" by code_simp
  then have cube: "cubeArgOk rng_zero (Some ascendingCube)" by (simp add: cubeArgOk_def)
  have "solveBoardWithStats 82 rng_zero 0 1 threeBlanks (Some ascendingCube) \<noteq> None"
    by code_simp
  then obtain st board' g where
    run: "solveBoardWithStats 82 rng_zero 0 1 threeBlanks (Some ascendingCube) = Some (st, board', g)"
    by auto
  have "solved (fst (the (solveBoardWithStats 82 rng_zero 0 1 threeBlanks (Some ascendingCube))))"
    by code_simp
  with run have s: "solved st" by simp
  have ne2: "solveBoardWithStats 82 rng_zero 0 1 threeBlanks (Some rotatedCube) \<noteq> None"
    by code_simp
  have s2: "solved (fst (the (solveBoardWithStats 82 rng_zero 0 1 threeBlanks (Some rotatedCube))))"
    by code_simp
  from ne2 obtain st2 board2 g2 where
    "solveBoardWithStats 82 rng_zero 0 1 threeBlanks (Some rotatedCube) = Some (st2, board2, g2)"
    by auto
  with s2 have run2: "solveBoard 82 rng_zero 0 1 threeBlanks = Some (True, board2, g2)"
    by (simp add: solveBoard_def solve_None_zero)
  note inst = C1_solved_board_is_solved [OF shape clean cube, of 82 0 1]
  from inst run s have "isBoardSolved board'" by blast
  moreover from inst run2 rng_ok_zero have "isBoardSolved board2" by blast
  ultimately show ?thesis using shape clean cube rng_ok_zero run s run2 by blast
qed

theorem C1_counterexample:
  "wf_board allOnes \<and>
   solveBoardWithStats 1 rng_zero 0 1 allOnes (Some ascendingCube)
     = Some (\<lparr>solved = True, backtracks = 0, elapsedMs = 1\<rparr>, allOnes, rng_zero) \<and>
   \<not> isBoardSolved allOnes"
proof -
  have wf: "wf_board allOnes" by code_simp
  have full: "isBoardComplete allOnes" by code_simp
  have bad: "\<not> isBoardSolved allOnes" by code_simp
  have "backtrack (Suc 0) ascendingCube (allOnes, 0) = Some (True, allOnes, 0)"
    using full by (rule backtrack_full)
  then have "solveBoardWithStats 1 rng_zero 0 1 allOnes (Some ascendingCube)
     = Some (\<lparr>solved = True, backtracks = 0, elapsedMs = 1\<rparr>, allOnes, rng_zero)"
    by (simp add: solveBoardWithStats_def)
  with wf bad show ?thesis by simp
qed

text \<open>
  C2. For every integer \<open>clueCount\<close> in \<open>[0, 81]\<close>, \<open>generatePuzzle(clueCount)\<close> returns a
  puzzle with exactly \<open>min(clueCount, 81)\<close> non-zero cells, and every non-zero cell of the
  puzzle equals the cell of the solution.
\<close>

theorem C2_generatePuzzle_clues:
  assumes "rng_ok rng" "0 \<le> clues" "clues \<le> 81" "81 < fuel"
  shows "\<exists>puzzle solution st rng'.
           generatePuzzle fuel rng t0 t1 clues = Some (puzzle, solution, st, rng') \<and>
           countNonZero puzzle = nat (min clues 81) \<and>
           (\<forall>r < 9. \<forall>c < 9. puzzle ! r ! c \<noteq> 0 \<longrightarrow> puzzle ! r ! c = solution ! r ! c)"
proof -
  from generateFullSolution_ok [OF assms(1,4), of t0 t1]
  obtain solution st rng1 where
    gen: "generateFullSolution fuel rng t0 t1 = Some (solution, st, rng1)"
    and shape: "is9x9 solution" and ok: "isBoardSolved solution" and g1: "rng_ok rng1"
    by blast
  obtain ps rng2 where sh: "shuffleArray cells rng1 = (ps, rng2)"
    by (cases "shuffleArray cells rng1")
  from shuffleArray_perm [OF g1 sh] have ps: "mset ps = mset cells" by simp
  let ?puzzle = "removeLoop 0 (81 - clues) ps solution"
  have run: "generatePuzzle fuel rng t0 t1 clues = Some (?puzzle, solution, st, rng2)"
    using gen sh by (simp add: generatePuzzle_def cloneBoard_def)
  from ok have full: "isBoardComplete solution" by (simp add: isBoardSolved_iff)
  have t: "0 \<le> 81 - clues" "81 - clues \<le> 81" using assms(2,3) by simp_all
  from countNonZero_removeLoop [OF shape full ps t]
  have "countNonZero ?puzzle = 81 - nat (81 - clues)"
    and agree: "\<forall>r < 9. \<forall>c < 9. ?puzzle ! r ! c \<noteq> 0 \<longrightarrow> ?puzzle ! r ! c = solution ! r ! c"
    by simp_all
  moreover have "81 - nat (81 - clues) = nat (min clues 81)" using assms(2,3) by simp
  ultimately show ?thesis using run by simp
qed

theorem C2_witness:
  "rng_ok rng_zero \<and> (0::int) \<le> 32 \<and> (32::int) \<le> 81 \<and> (81::nat) < 82 \<and>
   (\<exists>puzzle solution st rng'.
      generatePuzzle 82 rng_zero 0 1 32 = Some (puzzle, solution, st, rng') \<and>
      countNonZero puzzle = 32)"
proof -
  have a: "(0::int) \<le> 32" and b: "(32::int) \<le> 81" and c: "(81::nat) < 82" by simp_all
  from C2_generatePuzzle_clues [OF rng_ok_zero a b c, of 0 1]
  obtain puzzle solution st rng' where
    "generatePuzzle 82 rng_zero 0 1 32 = Some (puzzle, solution, st, rng')"
    "countNonZero puzzle = nat (min 32 81)"
    by blast
  then have "\<exists>puzzle solution st rng'.
      generatePuzzle 82 rng_zero 0 1 32 = Some (puzzle, solution, st, rng') \<and>
      countNonZero puzzle = 32"
    by simp
  with rng_ok_zero show ?thesis by simp
qed

text \<open>
  C3. A board with an empty conflict list and no cell equal to \<open>0\<close> is a valid completed
  Sudoku: every row, every column and every 3x3 box holds each digit 1..9 exactly once.
\<close>

theorem C3_clean_full_board_is_solution:
  assumes "validateBoard board = []" "isBoardComplete board"
  shows "validSolution board"
proof -
  have rows: "\<forall>i \<in> set [0..<9]. occursOnce (rowOf board i)"
    using clean_row [OF assms] by simp
  have cols: "\<forall>i \<in> set [0..<9]. occursOnce (colOf board i)"
    using clean_col [OF assms] by simp
  have boxes: "\<forall>x \<in> set (List.product [0..<3] [0..<3]). case x of (br, bc) \<Rightarrow> occursOnce (boxOf board br bc)"
    using clean_box [OF assms] by simp
  from rows cols boxes show ?thesis
    unfolding validSolution_def list_all_iff by blast
qed

theorem C3_witness:
  "validateBoard solvedGrid = [] \<and> isBoardComplete solvedGrid \<and> validSolution solvedGrid"
proof -
  have v: "validateBoard solvedGrid = []" by code_simp
  have f: "isBoardComplete solvedGrid" by code_simp
  from C3_clean_full_board_is_solution [OF v f] v f show ?thesis by simp
qed

text \<open>
  C4. \<open>validateBoard\<close> scans the 81 cells in row-major order and returns, in that order,
  exactly the positions of the non-zero cells whose value is outside \<open>[1, 9]\<close> or for
  which \<open>isValidPlacement\<close> is false, each position once; two equal non-zero values in
  one row are both reported.
\<close>

theorem C4_validateBoard_conflicts:
  "validateBoard board = filter (conflictAt board) cells \<and>
   sorted_wrt rowMajor (validateBoard board) \<and>
   distinct (validateBoard board) \<and>
   (\<forall>r c1 c2. r < 9 \<and> c1 < 9 \<and> c2 < 9 \<and> c1 \<noteq> c2 \<and>
       board ! r ! c1 \<noteq> 0 \<and> board ! r ! c1 = board ! r ! c2 \<longrightarrow>
       (r, c1) \<in> set (validateBoard board) \<and> (r, c2) \<in> set (validateBoard board))"
proof -
  have clash: "conflictAt board (r, c1)"
    if "r < 9" "c1 < 9" "c2 < 9" "c1 \<noteq> c2" "board ! r ! c1 \<noteq> 0" "board ! r ! c1 = board ! r ! c2"
    for r c1 c2
  proof -
    have "peer r c1 r c2" by (simp add: peer_def)
    moreover have "(r, c2) \<noteq> (r, c1)" using that(4) by simp
    ultimately have "\<not> isValidPlacement board r c1 (board ! r ! c1)"
      unfolding isValidPlacement_iff [OF that(1,2)] using that(1,3,6) by metis
    with that(5) show ?thesis by (simp add: conflictAt_def)
  qed
  have both: "(r, c1) \<in> set (validateBoard board) \<and> (r, c2) \<in> set (validateBoard board)"
    if "r < 9" "c1 < 9" "c2 < 9" "c1 \<noteq> c2" "board ! r ! c1 \<noteq> 0" "board ! r ! c1 = board ! r ! c2"
    for r c1 c2
  proof -
    have "conflictAt board (r, c1)" using that by (rule clash)
    moreover have "conflictAt board (r, c2)" using that by (intro clash [of r c2 c1]) simp_all
    moreover have "(r, c1) \<in> set cells" "(r, c2) \<in> set cells"
      using that(1-3) by (simp_all add: set_cells)
    ultimately show ?thesis by (simp add: validateBoard_filter)
  qed
  have p1: "validateBoard board = filter (conflictAt board) cells"
    by (rule validateBoard_filter)
  have p2: "distinct (validateBoard board)"
    by (simp add: validateBoard_filter distinct_cells)
  have p3: "\<forall>r c1 c2. r < 9 \<and> c1 < 9 \<and> c2 < 9 \<and> c1 \<noteq> c2 \<and>
       board ! r ! c1 \<noteq> 0 \<and> board ! r ! c1 = board ! r ! c2 \<longrightarrow>
       (r, c1) \<in> set (validateBoard board) \<and> (r, c2) \<in> set (validateBoard board)"
    using both by blast
  from p1 sorted_validateBoard p2 p3 show ?thesis by (intro conjI)
qed

theorem C4_witness:
  "rowClash ! 0 ! 0 \<noteq> 0 \<and> rowClash ! 0 ! 0 = rowClash ! 0 ! 1 \<and>
   validateBoard rowClash = filter (conflictAt rowClash) cells \<and>
   (0, 0) \<in> set (validateBoard rowClash) \<and> (0, 1) \<in> set (validateBoard rowClash)"
proof -
  have a: "rowClash ! 0 ! 0 \<noteq> 0" by code_simp
  have b: "rowClash ! 0 ! 0 = rowClash ! 0 ! 1" by code_simp
  from C4_validateBoard_conflicts [of rowClash]
  have eq: "validateBoard rowClash = filter (conflictAt rowClash) cells"
    and row: "\<forall>r c1 c2. r < 9 \<and> c1 < 9 \<and> c2 < 9 \<and> c1 \<noteq> c2 \<and>
       rowClash ! r ! c1 \<noteq> 0 \<and> rowClash ! r ! c1 = rowClash ! r ! c2 \<longrightarrow>
       (r, c1) \<in> set (validateBoard rowClash) \<and> (r, c2) \<in> set (validateBoard rowClash)"
    by blast+
  from row [rule_format, of 0 0 1] a b
  have "(0, 0) \<in> set (validateBoard rowClash) \<and> (0, 1) \<in> set (validateBoard rowClash)"
    by simp
  with eq a b show ?thesis by blast
qed

text \<open>
  C5. If \<open>solveBoardWithStats\<close> returns with \<open>solved = false\<close>, the board after the
  call equals the board before it: every placement of the search has been undone.
\<close>

theorem C5_failed_solve_restores_board:
  assumes "is9x9 board"
    and "solveBoardWithStats fuel rng t0 t1 board cube = Some (st, board', rng')"
    and "\<not> solved st"
  shows "board' = board"
proof -
  from assms(2) obtain cube' ok bt where
    run: "backtrack fuel cube' (board, 0) = Some (ok, board', bt)"
    and st: "st = \<lparr>solved = ok, backtracks = bt, elapsedMs = t1 - t0\<rparr>"
    unfolding solve_Some_iff by blast
  from st assms(3) have "\<not> ok" by simp
  with run have "backtrack fuel cube' (board, 0) = Some (False, board', bt)" by simp
  with assms(1) show ?thesis by (rule backtrack_restores)
qed

theorem C5_witness:
  "is9x9 deadEnd \<and>
   (\<exists>st g. solveBoardWithStats 82 rng_zero 0 1 deadEnd (Some ascendingCube) = Some (st, deadEnd, g)
      \<and> \<not> solved st \<and> backtracks st = 1)"
proof -
  have shape: "is9x9 deadEnd" by code_simp
  have ne: "solveBoardWithStats 82 rng_zero 0 1 deadEnd (Some ascendingCube) \<noteq> None"
    by code_simp
  have ns0: "\<not> solved (fst (the (solveBoardWithStats 82 rng_zero 0 1 deadEnd (Some ascendingCube))))"
    by code_simp
  from ne obtain st board' g where
    run: "solveBoardWithStats 82 rng_zero 0 1 deadEnd (Some ascendingCube) = Some (st, board', g)"
    by auto
  from ns0 run have ns: "\<not> solved st" by simp
  have "backtracks (fst (the (solveBoardWithStats 82 rng_zero 0 1 deadEnd (Some ascendingCube)))) = 1"
    by code_simp
  with run have undone: "backtracks st = 1" by simp
  from C5_failed_solve_restores_board [OF shape run ns] have "board' = deadEnd" .
  with shape run ns undone show ?thesis by blast
qed

text \<open>
  C6. As stated the claim fails: with no cube supplied the solver builds one with
  \<open>buildCandidateCube\<close>, and the candidates of a cell are tried in the order of that
  cell's shuffled permutation of 1..9, not in ascending order. What holds, for the cube
  the call uses (built or supplied): at the first empty cell the search keeps the first
  value of the cell's permutation that is a valid placement and from which the search of
  the rest succeeds; every value before it in the permutation either was not a valid
  placement or was placed, searched from without success and taken back; \<open>backtracks\<close>
  counts one for each value taken back, plus the backtracks of the searches below. When
  no value succeeds, all nine were tried so and the board is left as found. The searches
  below are calls with the same cube, so the same holds at every empty cell.
\<close>

theorem C6_candidates_tried_in_cube_order:
  assumes "cubeArgOk rng cubeArg"
    and "(case cubeArg of None \<Rightarrow> buildCandidateCube rng | Some cu \<Rightarrow> (cu, rng)) = (cube, rng')"
    and "is9x9 board" "0 < fuel"
    and "find (\<lambda>(r, c). board ! r ! c = 0) cells = Some (r, c)"
    and "solveBoardWithStats fuel rng t0 t1 board cubeArg = Some (st, board', g)"
  shows "sort (cube ! r ! c) = [1, 2, 3, 4, 5, 6, 7, 8, 9] \<and>
         cubeArgOk rng' (Some cube) \<and>
         solveBoardWithStats fuel rng t0 t1 board cubeArg
           = solveBoardWithStats fuel rng' t0 t1 board (Some cube) \<and>
         (\<exists>k \<le> 9.
            (\<forall>j < k. candidateFails (fuel - 1) rng' t0 t1 cube board r c (cube ! r ! c ! j)) \<and>
            (if solved st
             then k < 9 \<and> isValidPlacement board r c (cube ! r ! c ! k) \<and>
                  board' ! r ! c = cube ! r ! c ! k \<and>
                  (\<exists>st'. solveBoardWithStats (fuel - 1) rng' t0 t1
                            (setCell board r c (cube ! r ! c ! k)) (Some cube)
                          = Some (st', board', rng') \<and>
                        solved st' \<and>
                        backtracks st =
                          sum_list (map (\<lambda>j. candidateCost (fuel - 1) rng' t0 t1 cube board r c
                                                (cube ! r ! c ! j)) [0..<k])
                          + backtracks st')
             else k = 9 \<and> board' = board \<and>
                  backtracks st =
                    sum_list (map (\<lambda>j. candidateCost (fuel - 1) rng' t0 t1 cube board r c
                                          (cube ! r ! c ! j)) [0..<9])))"
proof -
  from assms(4) obtain n where fuel: "fuel = Suc n" by (cases fuel) auto
  from assms(5) have pos: "r < 9" "c < 9" "board ! r ! c = 0"
    using find_cells_Some by blast+
  have wf: "wf_cube cube" using assms(1,2) by (rule cubeArgOk_cases)
  then have perm: "sort (cube ! r ! c) = [1, 2, 3, 4, 5, 6, 7, 8, 9]"
    using pos(1,2) by (simp add: wf_cube_def list_all_length)
  have arg: "cubeArgOk rng' (Some cube)" using wf by (simp add: cubeArgOk_def)
  have same: "solveBoardWithStats fuel rng t0 t1 board cubeArg
           = solveBoardWithStats fuel rng' t0 t1 board (Some cube)"
    using assms(2) by (simp add: solveBoardWithStats_def)
  from assms(6) assms(2) obtain ok bt where
    run: "backtrack fuel cube (board, 0) = Some (ok, board', bt)"
    and st: "st = \<lparr>solved = ok, backtracks = bt, elapsedMs = t1 - t0\<rparr>"
    unfolding solve_Some_iff by auto
  let ?cands = "cube ! r ! c"
  let ?sub = "\<lambda>k. backtrack n cube (setCell board r c (?cands ! k), 0)"
  let ?failed = "\<lambda>k. \<not> isValidPlacement board r c (?cands ! k) \<or>
                      (\<exists>m. ?sub k = Some (False, setCell board r c (?cands ! k), m))"
  let ?cost = "\<lambda>k. if isValidPlacement board r c (?cands ! k)
                    then (case ?sub k of None \<Rightarrow> 0 | Some (ok, b1, m) \<Rightarrow> m + 1) else (0::int)"
  from run fuel assms(5)
  have loop: "tryCandidates (backtrack n cube) r c ?cands [0..<9] (board, 0) = Some (ok, board', bt)"
    by simp
  have shift: "\<forall>x q. backtrack n cube (x, q)
      = map_option (\<lambda>(ok, b', m). (ok, b', m + q)) (backtrack n cube (x, 0))"
    using backtrack_shift by blast
  have restore: "\<forall>b0 bt0 b1 bt1. is9x9 b0 \<longrightarrow>
      backtrack n cube (b0, bt0) = Some (False, b1, bt1) \<longrightarrow> b1 = b0"
    using backtrack_restores by blast
  from tryCandidates_order [where rec = "backtrack n cube", OF shift restore assms(3) pos(1,3) loop]
  obtain i where i0: "i \<le> length [0..<9]" and before: "\<forall>j < i. ?failed ([0..<9] ! j)"
    and last: "if ok then i < length [0..<9] \<and>
                       isValidPlacement board r c (?cands ! ([0..<9] ! i)) \<and>
                       (\<exists>m. ?sub ([0..<9] ! i) = Some (True, board', m) \<and>
                            bt = 0 + sum_list (map ?cost (take i [0..<9])) + m)
               else i = length [0..<9] \<and> board' = board \<and>
                    bt = 0 + sum_list (map ?cost [0..<9])"
    by blast
  from i0 have i: "i \<le> 9" by simp
  have cost: "(\<lambda>j. candidateCost (fuel - 1) rng' t0 t1 cube board r c (?cands ! j)) = ?cost"
    by (rule ext) (simp add: candidateCost_eq fuel)
  have fails: "\<forall>j < i. candidateFails (fuel - 1) rng' t0 t1 cube board r c (?cands ! j)"
  proof (intro allI impI)
    fix j assume j: "j < i"
    with i have "[0..<9] ! j = j" by simp
    with before j have "?failed j" by auto
    then show "candidateFails (fuel - 1) rng' t0 t1 cube board r c (?cands ! j)"
      by (simp add: candidateFails_iff fuel)
  qed
  have tk: "take i [0..<9] = [0..<i]" using i by (rule take_upt_9)
  have tail: "if solved st
             then i < 9 \<and> isValidPlacement board r c (?cands ! i) \<and>
                  board' ! r ! c = ?cands ! i \<and>
                  (\<exists>st'. solveBoardWithStats (fuel - 1) rng' t0 t1
                            (setCell board r c (?cands ! i)) (Some cube)
                          = Some (st', board', rng') \<and>
                        solved st' \<and>
                        backtracks st = sum_list (map ?cost [0..<i]) + backtracks st')
             else i = 9 \<and> board' = board \<and> backtracks st = sum_list (map ?cost [0..<9])"
  proof (cases ok)
    case False
    with last st show ?thesis by simp
  next
    case True
    with last have i9: "i < 9" by simp
    then have nth: "[0..<9] ! i = i" by simp
    from last True nth tk obtain m where
      valid: "isValidPlacement board r c (?cands ! i)"
      and sub: "?sub i = Some (True, board', m)"
      and bt: "bt = sum_list (map ?cost [0..<i]) + m"
      by auto
    from wf_cube_value [OF wf pos(1,2) i9] have nz: "?cands ! i \<noteq> 0" by simp
    let ?x = "setCell board r c (?cands ! i)"
    have "?x ! r ! c = ?cands ! i" by (rule setCell_same [OF assms(3) pos(1,2)])
    with backtrack_success_props [OF is9x9_setCell [OF assms(3)] sub] pos(1,2) nz
    have kept: "board' ! r ! c = ?cands ! i" by simp
    have "solveBoardWithStats (fuel - 1) rng' t0 t1 ?x (Some cube)
        = Some (\<lparr>solved = True, backtracks = m, elapsedMs = t1 - t0\<rparr>, board', rng')"
      using sub by (simp add: solve_with_cube fuel)
    with True st i9 valid kept bt show ?thesis by simp
  qed
  from i fails tail have "\<exists>k \<le> 9.
            (\<forall>j < k. candidateFails (fuel - 1) rng' t0 t1 cube board r c (?cands ! j)) \<and>
            (if solved st
             then k < 9 \<and> isValidPlacement board r c (?cands ! k) \<and>
                  board' ! r ! c = ?cands ! k \<and>
                  (\<exists>st'. solveBoardWithStats (fuel - 1) rng' t0 t1
                            (setCell board r c (?cands ! k)) (Some cube)
                          = Some (st', board', rng') \<and>
                        solved st' \<and>
                        backtracks st = sum_list (map ?cost [0..<k]) + backtracks st')
             else k = 9 \<and> board' = board \<and> backtracks st = sum_list (map ?cost [0..<9]))"
    by blast
  with perm arg same show ?thesis unfolding cost by (intro conjI)
qed

theorem C6_witness:
  "cubeArgOk rng_zero None \<and> buildCandidateCube rng_zero = (rotatedCube, rng_zero) \<and>
   is9x9 threeBlanks \<and> (0::nat) < 82 \<and>
   find (\<lambda>(r, c). threeBlanks ! r ! c = 0) cells = Some (0, 6) \<and>
   (\<exists>st board' g.
      solveBoardWithStats 82 rng_zero 0 1 threeBlanks None = Some (st, board', g) \<and> solved st \<and>
      (\<exists>k < 9. board' ! 0 ! 6 = rotatedCube ! 0 ! 6 ! k \<and>
         (\<forall>j < k. candidateFails 81 rng_zero 0 1 rotatedCube threeBlanks 0 6 (rotatedCube ! 0 ! 6 ! j))))"
proof -
  have arg: "cubeArgOk rng_zero None" by (simp add: cubeArgOk_def rng_ok_zero)
  have cube: "(case None of None \<Rightarrow> buildCandidateCube rng_zero | Some cu \<Rightarrow> (cu, rng_zero))
      = (rotatedCube, rng_zero)"
    by (simp add: buildCandidateCube_zero)
  have shape: "is9x9 threeBlanks" by code_simp
  have fuel: "(0::nat) < 82" by simp
  have first: "find (\<lambda>(r, c). threeBlanks ! r ! c = 0) cells = Some (0, 6)" by code_simp
  have ne: "solveBoardWithStats 82 rng_zero 0 1 threeBlanks (Some rotatedCube) \<noteq> None"
    by code_simp
  have s0: "solved (fst (the (solveBoardWithStats 82 rng_zero 0 1 threeBlanks (Some rotatedCube))))"
    by code_simp
  from ne obtain st board' g where
    run: "solveBoardWithStats 82 rng_zero 0 1 threeBlanks None = Some (st, board', g)"
    unfolding solve_None_zero by auto
  from s0 run have s: "solved st" by (simp add: solve_None_zero)
  from C6_candidates_tried_in_cube_order [OF arg cube shape fuel first run]
  obtain k where "k \<le> 9"
    and before: "\<forall>j < k. candidateFails (82 - 1) rng_zero 0 1 rotatedCube threeBlanks 0 6
                            (rotatedCube ! 0 ! 6 ! j)"
    and last: "if solved st
       then k < 9 \<and> isValidPlacement threeBlanks 0 6 (rotatedCube ! 0 ! 6 ! k) \<and>
            board' ! 0 ! 6 = rotatedCube ! 0 ! 6 ! k \<and>
            (\<exists>st'. solveBoardWithStats (82 - 1) rng_zero 0 1
                      (setCell threeBlanks 0 6 (rotatedCube ! 0 ! 6 ! k)) (Some rotatedCube)
                    = Some (st', board', rng_zero) \<and>
                  solved st' \<and>
                  backtracks st =
                    sum_list (map (\<lambda>j. candidateCost (82 - 1) rng_zero 0 1 rotatedCube threeBlanks 0 6
                                          (rotatedCube ! 0 ! 6 ! j)) [0..<k])
                    + backtracks st')
       else k = 9 \<and> board' = threeBlanks \<and>
            backtracks st =
              sum_list (map (\<lambda>j. candidateCost (82 - 1) rng_zero 0 1 rotatedCube threeBlanks 0 6
                                    (rotatedCube ! 0 ! 6 ! j)) [0..<9])"
    by blast
  from last s have k: "k < 9" and kept: "board' ! 0 ! 6 = rotatedCube ! 0 ! 6 ! k" by simp_all
  have e: "(82::nat) - 1 = 81" by simp
  from before have "\<forall>j < k. candidateFails 81 rng_zero 0 1 rotatedCube threeBlanks 0 6
                            (rotatedCube ! 0 ! 6 ! j)"
    unfolding e .
  with k kept have "\<exists>k < 9. board' ! 0 ! 6 = rotatedCube ! 0 ! 6 ! k \<and>
         (\<forall>j < k. candidateFails 81 rng_zero 0 1 rotatedCube threeBlanks 0 6 (rotatedCube ! 0 ! 6 ! j))"
    by blast
  with run s have "\<exists>st board' g.
      solveBoardWithStats 82 rng_zero 0 1 threeBlanks None = Some (st, board', g) \<and> solved st \<and>
      (\<exists>k < 9. board' ! 0 ! 6 = rotatedCube ! 0 ! 6 ! k \<and>
         (\<forall>j < k. candidateFails 81 rng_zero 0 1 rotatedCube threeBlanks 0 6 (rotatedCube ! 0 ! 6 ! j)))"
    by blast
  with arg buildCandidateCube_zero shape fuel first show ?thesis by (intro conjI)
qed

theorem C6_counterexample:
  "rng_ok rng_zero \<and>
   fst (buildCandidateCube rng_zero) ! 0 ! 6 = [2, 3, 4, 5, 6, 7, 8, 9, 1] \<and>
   solveBoardWithStats 82 rng_zero 0 1 threeBlanks None
     = Some (\<lparr>solved = True, backtracks = 0, elapsedMs = 1\<rparr>, solvedGrid, rng_zero) \<and>
   solveBoardWithStats 82 rng_zero 0 1 threeBlanks (Some ascendingCube)
     = Some (\<lparr>solved = True, backtracks = 1, elapsedMs = 1\<rparr>, solvedGrid, rng_zero)"
proof -
  have c: "fst (buildCandidateCube rng_zero) ! 0 ! 6 = [2, 3, 4, 5, 6, 7, 8, 9, 1]"
    by (simp add: buildCandidateCube_zero rotatedCube_def)
  have a: "backtrack 82 rotatedCube (threeBlanks, 0) = Some (True, solvedGrid, 0)"
    by code_simp
  have b: "backtrack 82 ascendingCube (threeBlanks, 0) = Some (True, solvedGrid, 1)"
    by code_simp
  have "solveBoardWithStats 82 rng_zero 0 1 threeBlanks None
     = Some (\<lparr>solved = True, backtracks = 0, elapsedMs = 1\<rparr>, solvedGrid, rng_zero)"
    using a by (simp add: solveBoardWithStats_def buildCandidateCube_zero)
  moreover have "solveBoardWithStats 82 rng_zero 0 1 threeBlanks (Some ascendingCube)
     = Some (\<lparr>solved = True, backtracks = 1, elapsedMs = 1\<rparr>, solvedGrid, rng_zero)"
    using b by (simp add: solveBoardWithStats_def)
  ultimately show ?thesis using c rng_ok_zero by (intro conjI)
qed

text \<open>
  C7. \<open>solveBoardWithStats\<close> returns on every 9x9 board, with a cube of permutations of
  1..9 (or none supplied): every recursive call is on a board with one empty cell less,
  so a call stack of more frames than the board has empty cells (at most 81) is never
  exhausted, and a deeper stack gives the same result.
\<close>

theorem C7_solver_terminates:
  assumes "is9x9 board" "cubeArgOk rng cube" "emptyCount board < fuel"
  shows "emptyCount board \<le> 81 \<and>
         (\<exists>res. solveBoardWithStats fuel rng t0 t1 board cube = Some res \<and>
            (\<forall>fuel'. fuel \<le> fuel' \<longrightarrow> solveBoardWithStats fuel' rng t0 t1 board cube = Some res))"
proof -
  obtain cube' rng' where
    cu: "(case cube of None \<Rightarrow> buildCandidateCube rng | Some x \<Rightarrow> (x, rng)) = (cube', rng')"
    by (cases "case cube of None \<Rightarrow> buildCandidateCube rng | Some x \<Rightarrow> (x, rng)")
  have wf: "wf_cube cube'" using assms(2) cu by (rule cubeArgOk_cases)
  from backtrack_total [OF assms(1) wf assms(3), of 0]
  obtain ok board' bt where bt: "backtrack fuel cube' (board, 0) = Some (ok, board', bt)"
    by (cases "backtrack fuel cube' (board, 0)") auto
  let ?res = "(\<lparr>solved = ok, backtracks = bt, elapsedMs = t1 - t0\<rparr>, board', rng')"
  have "solveBoardWithStats fuel' rng t0 t1 board cube = Some ?res" if "fuel \<le> fuel'" for fuel'
  proof -
    from bt that have "backtrack fuel' cube' (board, 0) = Some (ok, board', bt)"
      by (rule backtrack_fuel_le)
    with cu show ?thesis by (simp add: solveBoardWithStats_def)
  qed
  then have "solveBoardWithStats fuel rng t0 t1 board cube = Some ?res \<and>
      (\<forall>fuel'. fuel \<le> fuel' \<longrightarrow> solveBoardWithStats fuel' rng t0 t1 board cube = Some ?res)"
    by simp
  then show ?thesis using emptyCount_le by blast
qed

theorem C7_witness:
  "is9x9 threeBlanks \<and> cubeArgOk rng_zero None \<and> emptyCount threeBlanks < 4 \<and>
   (\<exists>res. solveBoardWithStats 4 rng_zero 0 1 threeBlanks None = Some res \<and>
      solveBoardWithStats 82 rng_zero 0 1 threeBlanks None = Some res)"
proof -
  have shape: "is9x9 threeBlanks" by code_simp
  have cube: "cubeArgOk rng_zero None" by (simp add: cubeArgOk_def rng_ok_zero)
  have n: "emptyCount threeBlanks < 4" by code_simp
  from C7_solver_terminates [OF shape cube n, of 0 1]
  obtain res where "solveBoardWithStats 4 rng_zero 0 1 threeBlanks None = Some res"
    and "\<forall>fuel'. 4 \<le> fuel' \<longrightarrow> solveBoardWithStats fuel' rng_zero 0 1 threeBlanks None = Some res"
    by blast
  then have "solveBoardWithStats 4 rng_zero 0 1 threeBlanks None = Some res \<and>
      solveBoardWithStats 82 rng_zero 0 1 threeBlanks None = Some res"
    by simp
  with shape cube n show ?thesis by blast
qed

text \<open>
  C8. The statistics returned by \<open>solveBoardWithStats\<close> have \<open>backtracks \<ge> 0\<close>, and
  \<open>elapsedMs \<ge> 0\<close> when the second reading of the monotonic clock \<open>performance.now()\<close>
  is not before the first.
\<close>

theorem C8_statistics_nonnegative:
  assumes "solveBoardWithStats fuel rng t0 t1 board cube = Some (st, board', rng')"
    and "t0 \<le> t1"
  shows "0 \<le> backtracks st \<and> 0 \<le> elapsedMs st"
proof -
  from assms(1) obtain cube' ok bt where
    run: "backtrack fuel cube' (board, 0) = Some (ok, board', bt)"
    and st: "st = \<lparr>solved = ok, backtracks = bt, elapsedMs = t1 - t0\<rparr>"
    unfolding solve_Some_iff by blast
  from run have "0 \<le> bt" by (rule backtrack_bt)
  with st assms(2) show ?thesis by simp
qed

theorem C8_witness:
  "(0::real) \<le> 1 \<and>
   (case solveBoardWithStats 82 rng_zero 0 1 threeBlanks (Some ascendingCube) of
      None \<Rightarrow> False
    | Some (st, board', g) \<Rightarrow> 0 \<le> backtracks st \<and> 0 \<le> elapsedMs st)"
proof -
  have "solveBoardWithStats 82 rng_zero 0 1 threeBlanks (Some ascendingCube) \<noteq> None"
    by code_simp
  then obtain st board' g where
    run: "solveBoardWithStats 82 rng_zero 0 1 threeBlanks (Some ascendingCube) = Some (st, board', g)"
    by auto
  have clock: "(0::real) \<le> 1" by simp
  from C8_statistics_nonnegative [OF run clock] run show ?thesis by simp
qed

text \<open>
  C9. Every cell that is non-zero before a call of \<open>solveBoardWithStats\<close> or
  \<open>solveBoard\<close> holds the same value after it, whether the solve succeeds or fails.
\<close>

theorem C9_given_cells_unchanged:
  assumes "is9x9 board" "r < 9" "c < 9" "board ! r ! c \<noteq> 0"
  shows "(\<forall>st board' rng'. solveBoardWithStats fuel rng t0 t1 board cube = Some (st, board', rng')
            \<longrightarrow> board' ! r ! c = board ! r ! c) \<and>
         (\<forall>ok board' rng'. solveBoard fuel rng t0 t1 board = Some (ok, board', rng')
            \<longrightarrow> board' ! r ! c = board ! r ! c)"
proof -
  have main: "board' ! r ! c = board ! r ! c"
    if "solveBoardWithStats fuel rng t0 t1 board cube = Some (st, board', rng')"
    for st board' rng' cube
  proof -
    from that obtain cube' ok bt where
      run: "backtrack fuel cube' (board, 0) = Some (ok, board', bt)"
      unfolding solve_Some_iff by blast
    show ?thesis
    proof (cases ok)
      case True
      with run have "backtrack fuel cube' (board, 0) = Some (True, board', bt)" by simp
      from backtrack_success_props [OF assms(1) this]
      have "\<forall>r < 9. \<forall>c < 9. board ! r ! c \<noteq> 0 \<longrightarrow> board' ! r ! c = board ! r ! c" by simp
      with assms(2-4) show ?thesis by simp
    next
      case False
      with run have "backtrack fuel cube' (board, 0) = Some (False, board', bt)" by simp
      with assms(1) have "board' = board" by (rule backtrack_restores)
      then show ?thesis by simp
    qed
  qed
  have "board' ! r ! c = board ! r ! c"
    if "solveBoard fuel rng t0 t1 board = Some (ok, board', rng')" for ok board' rng'
  proof -
    from that obtain st where
      "solveBoardWithStats fuel rng t0 t1 board None = Some (st, board', rng')"
      unfolding solveBoard_def by (auto split: option.splits)
    then show ?thesis by (rule main)
  qed
  with main show ?thesis by blast
qed

theorem C9_witness:
  "is9x9 threeBlanks \<and> threeBlanks ! 0 ! 0 \<noteq> 0 \<and>
   (\<exists>st board' g. solveBoardWithStats 82 rng_zero 0 1 threeBlanks (Some ascendingCube) = Some (st, board', g)
       \<and> board' ! 0 ! 0 = threeBlanks ! 0 ! 0) \<and>
   (\<exists>ok board' g. solveBoard 82 rng_zero 0 1 threeBlanks = Some (ok, board', g)
       \<and> board' ! 0 ! 0 = threeBlanks ! 0 ! 0)"
proof -
  have shape: "is9x9 threeBlanks" by code_simp
  have nz: "threeBlanks ! 0 ! 0 \<noteq> 0" by code_simp
  have "solveBoardWithStats 82 rng_zero 0 1 threeBlanks (Some ascendingCube) \<noteq> None"
    by code_simp
  then obtain st board' g where
    run: "solveBoardWithStats 82 rng_zero 0 1 threeBlanks (Some ascendingCube) = Some (st, board', g)"
    by auto
  have "solveBoardWithStats 82 rng_zero 0 1 threeBlanks (Some rotatedCube) \<noteq> None"
    by code_simp
  then have "solveBoard 82 rng_zero 0 1 threeBlanks \<noteq> None"
    by (simp add: solveBoard_def solve_None_zero split: option.splits)
  then obtain ok2 board2 g2 where
    run2: "solveBoard 82 rng_zero 0 1 threeBlanks = Some (ok2, board2, g2)"
    by auto
  have "(\<forall>st board' rng'. solveBoardWithStats 82 rng_zero 0 1 threeBlanks (Some ascendingCube) = Some (st, board', rng')
            \<longrightarrow> board' ! 0 ! 0 = threeBlanks ! 0 ! 0) \<and>
         (\<forall>ok board' rng'. solveBoard 82 rng_zero 0 1 threeBlanks = Some (ok, board', rng')
            \<longrightarrow> board' ! 0 ! 0 = threeBlanks ! 0 ! 0)"
    by (rule C9_given_cells_unchanged [OF shape _ _ nz]) simp_all
  with run run2 shape nz show ?thesis by blast
qed

text \<open>
  C10. On a board with no cell equal to \<open>0\<close>, \<open>solveBoardWithStats\<close> returns
  \<open>solved = true\<close> with \<open>backtracks = 0\<close> and leaves the board as it is, whatever the
  board holds: the cells given are never validated. The board of 81 ones is such a board,
  and \<open>isBoardSolved\<close> is false on it.
\<close>

theorem C10_full_board_accepted_unchecked:
  assumes "isBoardComplete board" "0 < fuel"
  shows "\<exists>rng'. solveBoardWithStats fuel rng t0 t1 board cube =
           Some (\<lparr>solved = True, backtracks = 0, elapsedMs = t1 - t0\<rparr>, board, rng')"
proof -
  from assms(2) obtain n where fuel: "fuel = Suc n" by (cases fuel) auto
  from assms(1) have "find (\<lambda>(r, c). board ! r ! c = 0) cells = None"
    by (simp add: find_cells_None isBoardComplete_iff)
  then have "backtrack fuel cube' (board, 0) = Some (True, board, 0)" for cube'
    by (simp add: fuel)
  then show ?thesis
    unfolding solveBoardWithStats_def by (simp split: prod.splits option.splits)
qed

theorem C10_witness:
  "isBoardComplete allOnes \<and> \<not> isBoardSolved allOnes \<and>
   (\<exists>rng'. solveBoardWithStats 1 rng_zero 0 1 allOnes None =
           Some (\<lparr>solved = True, backtracks = 0, elapsedMs = 1 - 0\<rparr>, allOnes, rng'))"
proof -
  have full: "isBoardComplete allOnes" by code_simp
  have bad: "\<not> isBoardSolved allOnes" by code_simp
  from C10_full_board_accepted_unchecked [OF full, of 1 rng_zero 0 1 None] full bad
  show ?thesis by simp
qed

end
